theory Spec2Isabelle
  imports Complex_Main "HOL-Library.Sublist"
begin

section \<open>Strings of the JavaScript runtime\<close>

text \<open>
  A JavaScript string is a sequence of UTF-16 code units; a code unit is modelled as a
  natural number. The category keywords of the component are Japanese, so code units
  beyond one byte are needed, and \<open>String.prototype.trim\<close> removes code units such as
  U+3000 that are not one byte in any 8-bit encoding.
\<close>

type_synonym jsstring = "nat list"

definition js :: "string \<Rightarrow> jsstring" where
  \<comment> \<open>an ASCII literal as a JavaScript string\<close>
  "js s = map of_char s"

text \<open>
  \<open>String.prototype.toLowerCase\<close> belongs to the runtime: it follows the case mappings of
  Unicode, which no table of this theory could hold and which are not a map of single code
  units. The functions below that call it take it as their first argument, named
  \<open>toLowerCase\<close>, and what is proved holds for every such function; where a property of it
  is needed, the property is a hypothesis.
\<close>

definition isWhiteSpace :: "nat \<Rightarrow> bool" where
  \<comment> \<open>the code units removed by \<open>trim\<close>: ECMAScript WhiteSpace and LineTerminator\<close>
  "isWhiteSpace c \<longleftrightarrow>
     c \<in> set [9, 10, 11, 12, 13, 32, 160, 5760, 8232, 8233, 8239, 8287, 12288, 65279]
     \<or> (8192 \<le> c \<and> c \<le> 8202)"

definition trim :: "jsstring \<Rightarrow> jsstring" where
  "trim s = rev (dropWhile isWhiteSpace (rev (dropWhile isWhiteSpace s)))"

fun includesStr :: "jsstring \<Rightarrow> jsstring \<Rightarrow> bool" where
  \<comment> \<open>\<open>target.includes(search)\<close>: \<open>search\<close> occurs in \<open>target\<close> as a contiguous run\<close>
  "includesStr [] search = (search = [])"
| "includesStr (c # cs) search = (prefix search (c # cs) \<or> includesStr cs search)"

definition lowering :: "(jsstring \<Rightarrow> jsstring) \<Rightarrow> bool" where
  \<comment> \<open>the two facts used of \<open>toLowerCase\<close>: the empty string stays empty, and lowering
      commutes with \<open>trim\<close> (whitespace has no case, and no other code unit is lowered to
      whitespace)\<close>
  "lowering toLowerCase \<longleftrightarrow>
     toLowerCase [] = [] \<and> (\<forall>s. trim (toLowerCase s) = toLowerCase (trim s))"

definition lowerUnit :: "nat \<Rightarrow> nat" where
  "lowerUnit c = (if 65 \<le> c \<and> c \<le> 90 then c + 32 else c)"

definition asciiLowerCase :: "jsstring \<Rightarrow> jsstring" where
  \<comment> \<open>the lowering on which the examples are evaluated: A to Z are lowered, every other
      code unit is left as it is. On a string whose only cased letters are A to Z and a to z,
      as are those of the examples, this is what \<open>String.prototype.toLowerCase\<close> returns.\<close>
  "asciiLowerCase s = map lowerUnit s"

definition orEmpty :: "jsstring option \<Rightarrow> jsstring" where
  \<comment> \<open>\<open>props.x || ''\<close> for a string property that may be absent\<close>
  "orEmpty v = (case v of None \<Rightarrow> [] | Some s \<Rightarrow> s)"

section \<open>Features and the static tables of the component\<close>

record props =
  name_poi :: "jsstring option"
  flag_poi :: "jsstring option"
  blog_source :: "jsstring option"
  title_source :: "jsstring option"
  date_stamp :: "int option"
  fid :: "nat option"

record feature =
  properties :: "props option"

definition periodOptions :: "(nat \<times> int option) list" where
  \<comment> \<open>\<open>value\<close> and \<open>days\<close> of each option; the labels are presentation only\<close>
  "periodOptions = [(0, None), (1, Some 30), (2, Some 90), (3, Some 180), (4, Some 365)]"

definition categoryOptions :: "(jsstring \<times> jsstring list) list" where
  \<comment> \<open>\<open>id\<close> and \<open>keywords\<close> of each category, the Japanese keywords by code unit\<close>
  "categoryOptions =
    [(js ''cafe'',
        [[0x30AB, 0x30D5, 0x30A7], js ''cafe'', [0x55AB, 0x8336, 0x5E97],
         [0x30B3, 0x30FC, 0x30D2, 0x30FC], js ''coffee'']),
     (js ''ramen'',
        [[0x30E9, 0x30FC, 0x30E1, 0x30F3], js ''ramen'', [0x3089, 0x30FC, 0x3081, 0x3093],
         [0x9EBA, 0x5C4B]]),
     (js ''sushi'', [[0x5BFF, 0x53F8], [0x9BA8]]),
     (js ''westernfood'',
        [[0x30EC, 0x30B9, 0x30C8, 0x30E9, 0x30F3], [0x30A4, 0x30BF, 0x30EA, 0x30A2, 0x30F3],
         [0x30D5, 0x30EC, 0x30F3, 0x30C1]]),
     (js ''park'', [[0x516C, 0x5712]])]"

section \<open>The tests of \<open>applyCombinedFilter\<close>\<close>

definition getPeriodTimestamp :: "int option \<Rightarrow> int \<Rightarrow> int" where
  \<comment> \<open>\<open>nowMs\<close> is \<open>new Date().getTime()\<close>, the clock in milliseconds\<close>
  "getPeriodTimestamp days nowMs =
     (case days of
        None \<Rightarrow> 0
      | Some d \<Rightarrow> (nowMs - d * 24 * 60 * 60 * 1000) div 1000)"

definition periodTimestampOf :: "nat \<Rightarrow> int \<Rightarrow> int" where
  "periodTimestampOf selectedPeriod nowMs =
     (case find (\<lambda>opt. fst opt = selectedPeriod) periodOptions of
        Some selectedOption \<Rightarrow> getPeriodTimestamp (snd selectedOption) nowMs
      | None \<Rightarrow> 0)"

definition collectCategoryKeywords :: "jsstring list \<Rightarrow> jsstring list" where
  \<comment> \<open>the \<open>forEach\<close> over \<open>selectedCategories\<close>; an id that is not in the table adds nothing\<close>
  "collectCategoryKeywords selectedCategories =
     concat (map (\<lambda>categoryId.
        case find (\<lambda>cat. fst cat = categoryId) categoryOptions of
          Some category \<Rightarrow> snd category
        | None \<Rightarrow> []) selectedCategories)"

definition periodTest :: "nat \<Rightarrow> int \<Rightarrow> props \<Rightarrow> bool" where
  "periodTest selectedPeriod periodTimestamp p =
     (if selectedPeriod > 0
      then \<not> (case date_stamp p of None \<Rightarrow> 0 | Some t \<Rightarrow> t) < periodTimestamp
      else True)"

definition searchTargets :: "props \<Rightarrow> jsstring list" where
  "searchTargets p =
     [orEmpty (name_poi p), orEmpty (flag_poi p), orEmpty (blog_source p),
      orEmpty (title_source p)]"

definition keywordTest :: "(jsstring \<Rightarrow> jsstring) \<Rightarrow> jsstring \<Rightarrow> props \<Rightarrow> bool" where
  \<comment> \<open>\<open>keyword\<close> is the local constant: the input lowercased, then trimmed\<close>
  "keywordTest toLowerCase keyword p =
     (if length keyword > 0
      then list_ex (\<lambda>target. includesStr (toLowerCase target) keyword) (searchTargets p)
      else True)"

definition categoryTargets :: "props \<Rightarrow> jsstring list" where
  "categoryTargets p = [orEmpty (name_poi p), orEmpty (title_source p)]"

definition categoryTest ::
  "(jsstring \<Rightarrow> jsstring) \<Rightarrow> jsstring list \<Rightarrow> props \<Rightarrow> bool" where
  "categoryTest toLowerCase categoryKeywords p =
     (if length categoryKeywords > 0
      then list_ex (\<lambda>categoryKeyword.
             list_ex (\<lambda>target. includesStr (toLowerCase target) (toLowerCase categoryKeyword))
               (categoryTargets p)) categoryKeywords
      else True)"

definition effectiveKeyword :: "(jsstring \<Rightarrow> jsstring) \<Rightarrow> jsstring \<Rightarrow> jsstring" where
  \<comment> \<open>\<open>filterKeyword.toLowerCase().trim()\<close>\<close>
  "effectiveKeyword toLowerCase filterKeyword = trim (toLowerCase filterKeyword)"

definition featureMatches ::
  "(jsstring \<Rightarrow> jsstring) \<Rightarrow> jsstring \<Rightarrow> nat \<Rightarrow> jsstring list \<Rightarrow> int \<Rightarrow> feature \<Rightarrow> bool"
  where
  \<comment> \<open>the predicate given to \<open>poiData.features.filter\<close>\<close>
  "featureMatches toLowerCase filterKeyword selectedPeriod selectedCategories nowMs f =
     (case properties f of
        None \<Rightarrow> False
      | Some p \<Rightarrow>
          periodTest selectedPeriod (periodTimestampOf selectedPeriod nowMs) p
          \<and> keywordTest toLowerCase (effectiveKeyword toLowerCase filterKeyword) p
          \<and> categoryTest toLowerCase (collectCategoryKeywords selectedCategories) p)"

text \<open>
  The reading of the specification: a keyword matches a field without regard to case when
  the lowercased field contains the lowercased keyword, both lowered by the runtime.
\<close>

definition caseInsensitiveSubstring ::
  "(jsstring \<Rightarrow> jsstring) \<Rightarrow> jsstring \<Rightarrow> jsstring \<Rightarrow> bool" where
  "caseInsensitiveSubstring toLowerCase keyword field \<longleftrightarrow>
     (\<exists>before after. toLowerCase field = before @ toLowerCase keyword @ after)"

definition keywordsOf :: "jsstring \<Rightarrow> jsstring list" where
  \<comment> \<open>the static table from category id to keyword list\<close>
  "keywordsOf categoryId = (case map_of categoryOptions categoryId of Some ks \<Rightarrow> ks | None \<Rightarrow> [])"

section \<open>Numbers of the JavaScript runtime\<close>

text \<open>
  \<open>Math.floor((length / totalFeatures) * 100)\<close> is computed on IEEE 754 doubles: the
  quotient is rounded to the nearest double, ties to even, and so is the product. A double
  is modelled as the rational it denotes, with a significand of 53 bits; the exponent
  range is not modelled, as the quantities of this component are counts below \<open>2^53\<close> and
  their ratios, far from overflow and underflow. A division by zero gives no finite
  number (\<open>Infinity\<close> or \<open>NaN\<close>).
\<close>

fun log2floor :: "nat \<Rightarrow> nat" where
  "log2floor n = (if n < 2 then 0 else Suc (log2floor (n div 2)))"

definition log2ceil :: "nat \<Rightarrow> nat" where
  "log2ceil n = (if n \<le> 1 then 0 else Suc (log2floor (n - 1)))"

definition binade :: "rat \<Rightarrow> int" where
  \<comment> \<open>for \<open>0 < x\<close>, the exponent \<open>e\<close> with \<open>2^e \<le> x < 2^(e+1)\<close>\<close>
  "binade x =
     (if 1 \<le> x then int (log2floor (nat \<lfloor>x\<rfloor>)) else - int (log2ceil (nat \<lceil>1 / x\<rceil>)))"

definition roundHalfEven :: "rat \<Rightarrow> int" where
  "roundHalfEven y =
     (let f = \<lfloor>y\<rfloor>; d = y - of_int f
      in if d < 1 / 2 then f else if 1 / 2 < d then f + 1 else if even f then f else f + 1)"

definition roundPositive :: "rat \<Rightarrow> rat" where
  "roundPositive x =
     (let ulp = 2 powi (binade x - 52) in of_int (roundHalfEven (x / ulp)) * ulp)"

definition roundDouble :: "rat \<Rightarrow> rat" where
  "roundDouble x =
     (if x = 0 then 0 else if 0 < x then roundPositive x else - roundPositive (- x))"

datatype jsnumber = Finite int | NotFinite

definition percent :: "nat \<Rightarrow> nat \<Rightarrow> int" where
  \<comment> \<open>the value of \<open>Math.floor((len / totalFeatures) * 100)\<close> for a divisor that is not
      zero: the quotient and the product are each rounded to a double\<close>
  "percent len totalFeatures =
     \<lfloor>roundDouble (roundDouble (of_nat len / of_nat totalFeatures) * 100)\<rfloor>"

definition floorPercent :: "nat \<Rightarrow> nat \<Rightarrow> jsnumber" where
  \<comment> \<open>\<open>Math.floor((len / totalFeatures) * 100)\<close>; a division by zero gives \<open>Infinity\<close> or
      \<open>NaN\<close>, and so does its floor\<close>
  "floorPercent len totalFeatures =
     (if totalFeatures = 0 then NotFinite else Finite (percent len totalFeatures))"

definition screenProgress :: "nat \<Rightarrow> nat \<Rightarrow> int" where
  \<comment> \<open>the loading screen:
      \<open>totalCount > 0 ? Math.round((loadedCount / totalCount) * 100) : 0\<close>\<close>
  "screenProgress loadedCount totalCount =
     (if totalCount > 0
      then \<lfloor>roundDouble (roundDouble (of_nat loadedCount / of_nat totalCount) * 100) + 1 / 2\<rfloor>
      else 0)"

section \<open>The state of the map component\<close>

datatype layer = PoiPseudo | PoiPoints | PoiHeat | PoiText

datatype filterExpr =
    MatchFid "nat list"  \<comment> \<open>\<open>['match', ['get', 'fid'], matchingFids, true, false]\<close>\<close>
  | Has jsstring         \<comment> \<open>\<open>['has', key]\<close>\<close>

datatype loadError =
    NetworkError         \<comment> \<open>\<open>fetch\<close> rejects\<close>
  | HttpError nat        \<comment> \<open>\<open>HTTP error! status: n\<close>\<close>
  | BodyNull             \<comment> \<open>\<open>Response body is null\<close>\<close>
  | DecodeError          \<comment> \<open>the iterator of \<open>deserialize\<close> throws\<close>

datatype event = LoadingProgress nat nat "loadError option"
  \<comment> \<open>\<open>loadedCount\<close>, \<open>totalCount\<close>, \<open>error\<close>\<close>

datatype stream = Stream "nat option" "feature list" bool
  \<comment> \<open>\<open>featuresCount\<close> of the header when it has one, the records that decode, and
      whether the iterator throws after them\<close>

datatype response = Rejected | Response bool nat "stream option"
  \<comment> \<open>\<open>ok\<close>, \<open>status\<close>, \<open>body\<close>\<close>

record state =
  mapExists :: bool
  sourceExists :: bool
  loadingProgress :: jsnumber
  isDataLoaded :: bool
  poiData :: "feature list"
  setDataCalls :: "feature list list"
  dispatched :: "event list"
  filterKeyword :: jsstring
  selectedRange :: nat
  selectedCategory :: jsstring
  selectedPeriod :: nat
  selectedCategories :: "jsstring list"
  totalPOICount :: nat
  currentVisiblePOIs :: nat
  centerPOIs :: "feature list"
  layerFilter :: "layer \<Rightarrow> filterExpr option"

text \<open>
  \<open>poiData\<close> stands for \<open>poiData.features\<close>. \<open>setDataCalls\<close> lists, oldest first, the
  collections handed to \<open>source.setData\<close>, which the map copies at the call; \<open>dispatched\<close>
  lists the events sent to the parent component. \<open>layerFilter\<close> is the filter the map holds
  for each layer, \<open>None\<close> for no filter. \<open>mapExists\<close> says that \<open>map\<close> is set and
  \<open>sourceExists\<close> that the source \<open>poi-data\<close> has been added.
\<close>

definition initialState :: state where
  "initialState =
     \<lparr>mapExists = False, sourceExists = False, loadingProgress = Finite 0,
      isDataLoaded = False, poiData = [], setDataCalls = [], dispatched = [],
      filterKeyword = [], selectedRange = 0, selectedCategory = [], selectedPeriod = 0,
      selectedCategories = [], totalPOICount = 0, currentVisiblePOIs = 0, centerPOIs = [],
      layerFilter = (\<lambda>l. None)\<rparr>"

definition mapLoaded :: "state \<Rightarrow> state" where
  \<comment> \<open>\<open>onMount\<close> creates the map; its \<open>load\<close> handler adds the source and the four layers\<close>
  "mapLoaded s = s\<lparr>mapExists := True, sourceExists := True\<rparr>"

section \<open>Loading\<close>

definition updateMapData :: "state \<Rightarrow> state" where
  "updateMapData s =
     (if \<not> mapExists s then s
      else if sourceExists s then s\<lparr>setDataCalls := setDataCalls s @ [poiData s]\<rparr>
      else s)"

definition flushDue :: "nat \<Rightarrow> nat \<Rightarrow> bool" where
  \<comment> \<open>the condition under which the loop calls \<open>updateMapData\<close>, \<open>len\<close> being
      \<open>poiData.features.length\<close>\<close>
  "flushDue totalFeatures len \<longleftrightarrow>
     (totalFeatures > 0 \<and> len = totalFeatures) \<or> len mod 256 = 0"

definition decodeStep :: "nat \<Rightarrow> state \<Rightarrow> feature \<Rightarrow> state" where
  \<comment> \<open>the body of the \<open>for await\<close> loop\<close>
  "decodeStep totalFeatures s f =
     (let s1 = s\<lparr>poiData := poiData s @ [f]\<rparr>;
          s2 = (if totalFeatures > 0
                then s1\<lparr>loadingProgress := floorPercent (length (poiData s1)) totalFeatures,
                        dispatched := dispatched s1 @
                          [LoadingProgress (length (poiData s1)) totalFeatures None]\<rparr>
                else s1)
      in if flushDue totalFeatures (length (poiData s2)) then updateMapData s2 else s2)"

fun decodeLoop :: "nat \<Rightarrow> state \<Rightarrow> feature list \<Rightarrow> state" where
  "decodeLoop totalFeatures s [] = s"
| "decodeLoop totalFeatures s (f # fs) = decodeLoop totalFeatures (decodeStep totalFeatures s f) fs"

definition loadFailed :: "state \<Rightarrow> loadError \<Rightarrow> state" where
  \<comment> \<open>the \<open>catch\<close> block\<close>
  "loadFailed s e =
     s\<lparr>isDataLoaded := True, dispatched := dispatched s @ [LoadingProgress 0 0 (Some e)]\<rparr>"

definition loadPOIData :: "state \<Rightarrow> response \<Rightarrow> state" where
  "loadPOIData s r =
     (case r of
        Rejected \<Rightarrow> loadFailed s NetworkError
      | Response ok status body \<Rightarrow>
          if \<not> ok then loadFailed s (HttpError status)
          else (case body of
             None \<Rightarrow> loadFailed s BodyNull
           | Some (Stream featuresCount records throws) \<Rightarrow>
               let totalFeatures = (case featuresCount of None \<Rightarrow> 0 | Some n \<Rightarrow> n);
                   s1 = (if totalFeatures > 0
                         then s\<lparr>dispatched := dispatched s @
                                 [LoadingProgress 0 totalFeatures None]\<rparr>
                         else s);
                   s2 = decodeLoop totalFeatures s1 records
               in if throws then loadFailed s2 DecodeError
                  else s2\<lparr>isDataLoaded := True, currentVisiblePOIs := length (poiData s2)\<rparr>))"

text \<open>
  The error that the \<open>try\<close> block of \<open>loadPOIData\<close> throws on a response, if any, and
  the records decoded before the stream ends or throws.
\<close>

fun failureOf :: "response \<Rightarrow> loadError option" where
  "failureOf Rejected = Some NetworkError"
| "failureOf (Response ok status body) =
     (if \<not> ok then Some (HttpError status)
      else case body of
             None \<Rightarrow> Some BodyNull
           | Some (Stream featuresCount records throws) \<Rightarrow>
               if throws then Some DecodeError else None)"

fun decodedRecords :: "response \<Rightarrow> feature list" where
  "decodedRecords (Response True status (Some (Stream featuresCount records throws))) = records"
| "decodedRecords r = []"

fun declaredCount :: "response \<Rightarrow> nat" where
  \<comment> \<open>\<open>totalFeatures\<close>: \<open>m?.featuresCount || 0\<close>, and 0 when no header is read\<close>
  "declaredCount (Response True status (Some (Stream (Some n) records throws))) = n"
| "declaredCount r = 0"

section \<open>The list of the points near the centre\<close>

definition updateCenterPOIs :: "state \<Rightarrow> feature list \<Rightarrow> state" where
  \<comment> \<open>\<open>rendered\<close> is what \<open>map.queryRenderedFeatures(bbox, {layers: ['poi-points']})\<close>
      returns\<close>
  "updateCenterPOIs s rendered =
     (if \<not> mapExists s \<or> \<not> isDataLoaded s then s
      else s\<lparr>totalPOICount := length rendered, centerPOIs := take 99 rendered\<rparr>)"

section \<open>Filtering\<close>

definition fidOf :: "feature \<Rightarrow> nat option" where
  \<comment> \<open>\<open>feature.properties?.fid\<close>\<close>
  "fidOf f = (case properties f of None \<Rightarrow> None | Some p \<Rightarrow> fid p)"

definition matchingFeatures :: "(jsstring \<Rightarrow> jsstring) \<Rightarrow> state \<Rightarrow> int \<Rightarrow> feature list" where
  "matchingFeatures toLowerCase s nowMs =
     filter (featureMatches toLowerCase (filterKeyword s) (selectedPeriod s)
               (selectedCategories s) nowMs)
       (poiData s)"

definition matchingFids :: "feature list \<Rightarrow> nat list" where
  \<comment> \<open>\<open>.map(feature => feature.properties?.fid).filter(fid => fid !== undefined)\<close>\<close>
  "matchingFids fs = List.map_filter fidOf fs"

definition noResultFilter :: filterExpr where
  "noResultFilter = Has (js ''poi_nonexistent'')"

definition setFilters :: "state \<Rightarrow> filterExpr option \<Rightarrow> state" where
  \<comment> \<open>the three calls \<open>map.setFilter\<close> on \<open>poi-points\<close>, \<open>poi-heat\<close> and \<open>poi-text\<close>\<close>
  "setFilters s e =
     s\<lparr>layerFilter := (layerFilter s)(PoiPoints := e, PoiHeat := e, PoiText := e)\<rparr>"

definition applyCombinedFilter :: "(jsstring \<Rightarrow> jsstring) \<Rightarrow> state \<Rightarrow> int \<Rightarrow> state" where
  "applyCombinedFilter toLowerCase s nowMs =
     (let matching = matchingFeatures toLowerCase s nowMs;
          s1 = (if length matching > 0
                then setFilters s (Some (MatchFid (matchingFids matching)))
                else setFilters s (Some noResultFilter))
      in s1\<lparr>currentVisiblePOIs := length matching\<rparr>)"

definition clearAllFilters :: "state \<Rightarrow> state" where
  "clearAllFilters s = (if \<not> mapExists s then s else setFilters s None)"

definition criterionActive :: "state \<Rightarrow> bool" where
  \<comment> \<open>the condition of \<open>applyFilter\<close>\<close>
  "criterionActive s \<longleftrightarrow>
     length (trim (filterKeyword s)) > 0 \<or> selectedPeriod s > 0
     \<or> length (selectedCategories s) > 0"

definition applyFilter ::
  "(jsstring \<Rightarrow> jsstring) \<Rightarrow> state \<Rightarrow> int \<Rightarrow> feature list \<Rightarrow> state" where
  \<comment> \<open>\<open>nowMs\<close> is the clock, \<open>rendered\<close> the answer of the map to \<open>updateCenterPOIs\<close>\<close>
  "applyFilter toLowerCase s nowMs rendered =
     (if \<not> mapExists s \<or> \<not> isDataLoaded s then s
      else updateCenterPOIs
             (if criterionActive s then applyCombinedFilter toLowerCase s nowMs
              else clearAllFilters s)
             rendered)"

definition clearFilter :: "state \<Rightarrow> state" where
  "clearFilter s =
     (let s1 = s\<lparr>filterKeyword := [], selectedRange := 0, selectedCategory := [],
                 selectedPeriod := 0, selectedCategories := []\<rparr>
      in if mapExists s1 \<and> isDataLoaded s1
         then (setFilters s1 None)\<lparr>currentVisiblePOIs := length (poiData s1)\<rparr>
         else s1)"

definition keywordInput ::
  "(jsstring \<Rightarrow> jsstring) \<Rightarrow> state \<Rightarrow> jsstring \<Rightarrow> int \<Rightarrow> feature list \<Rightarrow> state" where
  \<comment> \<open>the text box: \<open>bind:value={filterKeyword}\<close> with \<open>on:input={applyFilter}\<close>\<close>
  "keywordInput toLowerCase s text nowMs rendered =
     applyFilter toLowerCase (s\<lparr>filterKeyword := text\<rparr>) nowMs rendered"

definition selectPeriod ::
  "(jsstring \<Rightarrow> jsstring) \<Rightarrow> state \<Rightarrow> nat \<Rightarrow> int \<Rightarrow> feature list \<Rightarrow> state" where
  "selectPeriod toLowerCase s periodValue nowMs rendered =
     applyFilter toLowerCase (s\<lparr>selectedPeriod := periodValue\<rparr>) nowMs rendered"

definition toggleCategory ::
  "(jsstring \<Rightarrow> jsstring) \<Rightarrow> state \<Rightarrow> jsstring \<Rightarrow> int \<Rightarrow> feature list \<Rightarrow> state" where
  "toggleCategory toLowerCase s categoryId nowMs rendered =
     applyFilter toLowerCase
       (s\<lparr>selectedCategories :=
            (if categoryId \<in> set (selectedCategories s)
             then filter (\<lambda>i. i \<noteq> categoryId) (selectedCategories s)
             else selectedCategories s @ [categoryId])\<rparr>)
       nowMs rendered"

section \<open>What a layer filter lets through\<close>

text \<open>
  The two expressions the component builds, read as the style specification of the map
  library reads them: \<open>match\<close> on \<open>fid\<close> holds for a feature whose \<open>fid\<close> is one of the
  labels, \<open>has\<close> for a feature that carries a property of the given name.
\<close>

definition propertyNames :: "props \<Rightarrow> jsstring list" where
  "propertyNames p =
     (if name_poi p = None then [] else [js ''name_poi'']) @
     (if flag_poi p = None then [] else [js ''flag_poi'']) @
     (if blog_source p = None then [] else [js ''blog_source'']) @
     (if title_source p = None then [] else [js ''title_source'']) @
     (if date_stamp p = None then [] else [js ''date_stamp'']) @
     (if fid p = None then [] else [js ''fid''])"

fun evalFilter :: "filterExpr \<Rightarrow> feature \<Rightarrow> bool" where
  "evalFilter (MatchFid labels) f = (case fidOf f of None \<Rightarrow> False | Some i \<Rightarrow> i \<in> set labels)"
| "evalFilter (Has key) f =
     (case properties f of None \<Rightarrow> False | Some p \<Rightarrow> key \<in> set (propertyNames p))"

definition layerShows :: "state \<Rightarrow> layer \<Rightarrow> feature \<Rightarrow> bool" where
  "layerShows s l f = (case layerFilter s l of None \<Rightarrow> True | Some e \<Rightarrow> evalFilter e f)"

section \<open>Example data\<close>

definition cafeProps :: props where
  "cafeProps =
     \<lparr>name_poi = Some (js ''Blue Cafe''), flag_poi = None, blog_source = None,
      title_source = Some (js ''Morning COFFEE''), date_stamp = Some 1700000000,
      fid = Some 1\<rparr>"

definition barFeature :: feature where
  "barFeature =
     \<lparr>properties = Some \<lparr>name_poi = Some (js ''Night Bar''), flag_poi = None,
        blog_source = None, title_source = None, date_stamp = Some 1700000000,
        fid = Some 2\<rparr>\<rparr>"

definition cafeFeature :: feature where
  "cafeFeature = \<lparr>properties = Some cafeProps\<rparr>"

definition loadedState :: state where
  \<comment> \<open>the component after the map has loaded and a stream of two records has been read\<close>
  "loadedState =
     loadPOIData (mapLoaded initialState)
       (Response True 200 (Some (Stream (Some 2) [cafeFeature, barFeature] False)))"

definition afterCafe :: state where
  \<comment> \<open>then \<open>cafe\<close> is typed into the keyword box\<close>
  "afterCafe = keywordInput asciiLowerCase loadedState (js ''cafe'') 0 []"

section \<open>Rounding to a double\<close>

declare log2floor.simps [simp del]

lemma log2floor_bounds: "0 < n \<Longrightarrow> 2 ^ log2floor n \<le> n \<and> n < 2 ^ Suc (log2floor n)"
proof (induction n rule: log2floor.induct)
  case (1 n)
  show ?case
  proof (cases "n < 2")
    case True
    with "1.prems" show ?thesis by (simp add: log2floor.simps [of n])
  next
    case False
    then have "0 < n div 2" by simp
    with "1.IH" False have ih: "2 ^ log2floor (n div 2) \<le> n div 2"
      "n div 2 < 2 ^ Suc (log2floor (n div 2))" by simp_all
    from False have eq: "log2floor n = Suc (log2floor (n div 2))"
      by (simp add: log2floor.simps [of n])
    from ih(1) have "2 * 2 ^ log2floor (n div 2) \<le> n" by linarith
    moreover from ih(2) have "n < 2 * 2 ^ Suc (log2floor (n div 2))" by linarith
    ultimately show ?thesis by (simp add: eq)
  qed
qed

lemma log2ceil_bounds:
  assumes "1 < n"
  shows "2 ^ (log2ceil n - 1) < n \<and> n \<le> 2 ^ log2ceil n"
proof -
  from assms have "0 < n - 1" by simp
  from log2floor_bounds [OF this]
  have "2 ^ log2floor (n - 1) \<le> n - 1" "n - 1 < 2 ^ Suc (log2floor (n - 1))" by simp_all
  moreover from assms have "log2ceil n = Suc (log2floor (n - 1))" by (simp add: log2ceil_def)
  ultimately show ?thesis using assms by simp linarith
qed

lemma pow2_le_of_nat: "2 ^ k \<le> n \<Longrightarrow> (2::rat) ^ k \<le> of_nat n"
proof -
  assume "2 ^ k \<le> n"
  then have "(of_nat (2 ^ k)::rat) \<le> of_nat n" by (simp only: of_nat_le_iff)
  then show ?thesis by simp
qed

lemma of_nat_le_pow2: "n \<le> 2 ^ k \<Longrightarrow> (of_nat n::rat) \<le> 2 ^ k"
proof -
  assume "n \<le> 2 ^ k"
  then have "(of_nat n::rat) \<le> of_nat (2 ^ k)" by (simp only: of_nat_le_iff)
  then show ?thesis by simp
qed

lemma binade_bounds_ge1:
  assumes "1 \<le> x"
  shows "2 powi binade x \<le> x \<and> x < 2 powi (binade x + 1)"
proof -
  define n where "n = nat \<lfloor>x\<rfloor>"
  from assms have fl: "1 \<le> \<lfloor>x\<rfloor>" by simp
  then have n0: "0 < n" by (simp add: n_def)
  from fl have nx: "of_nat n = (of_int \<lfloor>x\<rfloor> :: rat)" by (simp add: n_def)
  have n1: "of_nat n \<le> x" unfolding nx by (rule of_int_floor_le)
  have n2: "x < of_nat n + 1" unfolding nx by linarith
  from log2floor_bounds [OF n0]
  have b: "2 ^ log2floor n \<le> n" "n < 2 ^ Suc (log2floor n)" by simp_all
  from pow2_le_of_nat [OF b(1)] n1 have 1: "(2::rat) ^ log2floor n \<le> x" by (rule order_trans)
  from b(2) have "n + 1 \<le> 2 ^ Suc (log2floor n)" by simp
  from of_nat_le_pow2 [OF this] have "of_nat n + 1 \<le> (2::rat) ^ Suc (log2floor n)"
    by (simp only: of_nat_add of_nat_1)
  with n2 have 2: "x < (2::rat) ^ Suc (log2floor n)" by (rule less_le_trans)
  have e: "binade x = int (log2floor n)" using assms by (simp add: binade_def n_def)
  have p: "int (log2floor n) + 1 = int (Suc (log2floor n))" by simp
  show ?thesis unfolding e p power_int_of_nat using 1 2 by (rule conjI)
qed

lemma binade_bounds_lt1:
  assumes "0 < x" and "x < 1"
  shows "2 powi binade x \<le> x \<and> x < 2 powi (binade x + 1)"
proof -
  define y where "y = 1 / x"
  from assms have y: "1 < y" by (simp add: y_def)
  define m where "m = nat \<lceil>y\<rceil>"
  from y have c2: "2 \<le> \<lceil>y\<rceil>" by linarith
  then have m1: "1 < m" by (simp add: m_def)
  from c2 have my: "of_nat m = (of_int \<lceil>y\<rceil> :: rat)" by (simp add: m_def)
  have m2: "y \<le> of_nat m" unfolding my by (rule le_of_int_ceiling)
  have m3: "of_nat m - 1 < y" unfolding my by (rule ceiling_correct [THEN conjunct1])
  define k where "k = log2ceil m"
  from log2ceil_bounds [OF m1] have b: "2 ^ (k - 1) < m" "m \<le> 2 ^ k" by (simp_all add: k_def)
  from m1 have k: "0 < k" by (simp add: k_def log2ceil_def)
  from m2 of_nat_le_pow2 [OF b(2)] have yk: "y \<le> 2 ^ k" by (rule order_trans)
  from b(1) have "2 ^ (k - 1) \<le> m - 1" by simp
  from pow2_le_of_nat [OF this] have "(2::rat) ^ (k - 1) \<le> of_nat (m - 1)" .
  also from m1 have "(of_nat (m - 1)::rat) = of_nat m - 1" by (simp add: of_nat_diff)
  also note m3
  finally have yk1: "(2::rat) ^ (k - 1) < y" .
  have e: "binade x = - int k" using assms by (simp add: binade_def k_def m_def y_def)
  have xinv: "x = 1 / y" using assms by (simp add: y_def)
  have 1: "2 powi (- int k) \<le> x"
  proof -
    from y have "0 < y" by simp
    with yk have "1 / (2::rat) ^ k \<le> 1 / y" by (intro divide_left_mono) simp_all
    moreover have "(2::rat) powi (- int k) = 1 / 2 ^ k"
      by (simp only: power_int_minus power_int_of_nat inverse_eq_divide)
    ultimately show ?thesis by (simp only: xinv)
  qed
  have 2: "x < 2 powi (- int k + 1)"
  proof -
    from y have "0 < y" by simp
    then have "0 < y * 2 ^ (k - 1)" by simp
    with yk1 have "1 / y < 1 / (2::rat) ^ (k - 1)" by (intro divide_strict_left_mono) simp_all
    moreover have k1: "- int k + 1 = - int (k - 1)" using k by simp
    moreover have "(2::rat) powi (- int (k - 1)) = 1 / 2 ^ (k - 1)"
      by (simp only: power_int_minus power_int_of_nat inverse_eq_divide)
    ultimately show ?thesis by (simp only: xinv)
  qed
  show ?thesis unfolding e using 1 2 by (rule conjI)
qed

lemma binade_bounds:
  assumes "0 < x"
  shows "2 powi binade x \<le> x \<and> x < 2 powi (binade x + 1)"
  using assms binade_bounds_ge1 [of x] binade_bounds_lt1 [of x] by (cases "1 \<le> x") simp_all

lemma binade_unique:
  assumes "0 < x" and "2 powi e \<le> x" and "x < 2 powi (e + 1)"
  shows "binade x = e"
proof (rule ccontr)
  assume ne: "binade x \<noteq> e"
  from binade_bounds [OF assms(1)]
  have b: "2 powi binade x \<le> x" "x < 2 powi (binade x + 1)" by simp_all
  show False
  proof (cases "binade x < e")
    case True
    then have "(2::rat) powi (binade x + 1) \<le> 2 powi e"
      by (intro power_int_increasing) simp_all
    with b(2) assms(2) show False by simp
  next
    case False
    with ne have "e + 1 \<le> binade x" by simp
    then have "(2::rat) powi (e + 1) \<le> 2 powi binade x"
      by (intro power_int_increasing) simp_all
    with b(1) assms(3) show False by simp
  qed
qed

lemma binade_mono:
  assumes "0 < x" and "x \<le> y"
  shows "binade x \<le> binade y"
proof (rule ccontr)
  assume "\<not> binade x \<le> binade y"
  then have "binade y + 1 \<le> binade x" by simp
  then have "(2::rat) powi (binade y + 1) \<le> 2 powi binade x"
    by (intro power_int_increasing) simp_all
  moreover from assms have "0 < y" by simp
  ultimately show False
    using binade_bounds [OF assms(1)] binade_bounds [OF \<open>0 < y\<close>] assms(2) by simp
qed

lemma roundHalfEven_bounds: "\<lfloor>y\<rfloor> \<le> roundHalfEven y \<and> roundHalfEven y \<le> \<lfloor>y\<rfloor> + 1"
  by (simp add: roundHalfEven_def Let_def)

lemma roundHalfEven_of_int: "roundHalfEven (of_int n) = n"
  by (simp add: roundHalfEven_def Let_def)

lemma roundHalfEven_mono:
  assumes "x \<le> y"
  shows "roundHalfEven x \<le> roundHalfEven y"
proof (cases "\<lfloor>x\<rfloor> = \<lfloor>y\<rfloor>")
  case True
  from assms have "x - of_int \<lfloor>y\<rfloor> \<le> y - of_int \<lfloor>y\<rfloor>" by simp
  then show ?thesis
    unfolding roundHalfEven_def Let_def True by (auto split: if_splits)
next
  case False
  with assms have "\<lfloor>x\<rfloor> < \<lfloor>y\<rfloor>" using floor_mono [OF assms] by simp
  then have "\<lfloor>x\<rfloor> + 1 \<le> \<lfloor>y\<rfloor>" by simp
  with roundHalfEven_bounds [of x] roundHalfEven_bounds [of y] show ?thesis by linarith
qed

lemma ulp_pos: "0 < (2::rat) powi e"
  by simp

lemma pow2_split:
  "(2::rat) powi e = 2 ^ 52 * 2 powi (e - 52)"
  "(2::rat) powi (e + 1) = 2 ^ 53 * 2 powi (e - 52)"
  using power_int_add [of "2::rat" 52 "e - 52"] power_int_add [of "2::rat" 53 "e - 52"]
  by (simp_all add: add.commute)

lemma scaled_range:
  assumes "0 < x"
  shows "2 ^ 52 \<le> x / 2 powi (binade x - 52) \<and> x / 2 powi (binade x - 52) < 2 ^ 53"
proof -
  let ?u = "(2::rat) powi (binade x - 52)"
  from binade_bounds [OF assms]
  have b: "2 powi binade x \<le> x" "x < 2 powi (binade x + 1)" by simp_all
  have u: "0 < ?u" by simp
  have lo: "(2::rat) powi binade x = 2 ^ 52 * ?u"
    and hi: "(2::rat) powi (binade x + 1) = 2 ^ 53 * ?u"
    by (rule pow2_split)+
  from b(1) have "2 ^ 52 * ?u \<le> x" by (simp only: lo)
  then have 1: "2 ^ 52 \<le> x / ?u" using u by (simp only: pos_le_divide_eq)
  from b(2) have "x < 2 ^ 53 * ?u" by (simp only: hi)
  then have 2: "x / ?u < 2 ^ 53" using u by (simp only: pos_divide_less_eq)
  from 1 2 show ?thesis by (rule conjI)
qed

lemma rounded_significand:
  assumes "0 < x"
  shows "2 ^ 52 \<le> roundHalfEven (x / 2 powi (binade x - 52))
       \<and> roundHalfEven (x / 2 powi (binade x - 52)) \<le> 2 ^ 53"
proof -
  let ?m = "x / 2 powi (binade x - 52)"
  from scaled_range [OF assms] have r: "of_int (2 ^ 52) \<le> ?m" "?m \<le> of_int (2 ^ 53)"
    by simp_all
  from roundHalfEven_mono [OF r(1)] roundHalfEven_mono [OF r(2)]
  show ?thesis by (simp only: roundHalfEven_of_int)
qed

lemma roundPositive_range:
  assumes "0 < x"
  shows "2 powi binade x \<le> roundPositive x \<and> roundPositive x \<le> 2 powi (binade x + 1)"
proof -
  let ?u = "(2::rat) powi (binade x - 52)"
  let ?r = "roundHalfEven (x / ?u)"
  have u: "0 < ?u" by simp
  have lo: "(2::rat) powi binade x = 2 ^ 52 * ?u"
    and hi: "(2::rat) powi (binade x + 1) = 2 ^ 53 * ?u"
    by (rule pow2_split)+
  from rounded_significand [OF assms] have "(of_int (2 ^ 52)::rat) \<le> of_int ?r"
    "(of_int ?r::rat) \<le> of_int (2 ^ 53)" by (simp_all only: of_int_le_iff)
  then have "2 ^ 52 * ?u \<le> of_int ?r * ?u" "of_int ?r * ?u \<le> 2 ^ 53 * ?u"
    using u by (simp_all add: mult_right_mono)
  then show ?thesis by (simp only: lo hi roundPositive_def Let_def)
qed

lemma roundPositive_pos: "0 < x \<Longrightarrow> 0 < roundPositive x"
  using roundPositive_range [of x] ulp_pos [of "binade x"] by linarith

lemma roundPositive_mono:
  assumes "0 < x" and "x \<le> y"
  shows "roundPositive x \<le> roundPositive y"
proof (cases "binade x = binade y")
  case True
  let ?u = "(2::rat) powi (binade y - 52)"
  have u: "0 < ?u" by simp
  from assms(2) u have "x / ?u \<le> y / ?u" by (simp add: divide_right_mono)
  from roundHalfEven_mono [OF this]
  have "(of_int (roundHalfEven (x / ?u))::rat) \<le> of_int (roundHalfEven (y / ?u))"
    by (simp only: of_int_le_iff)
  then have "of_int (roundHalfEven (x / ?u)) * ?u \<le> of_int (roundHalfEven (y / ?u)) * ?u"
    using u by (simp add: mult_right_mono)
  then show ?thesis by (simp only: roundPositive_def Let_def True)
next
  case False
  from assms have y: "0 < y" by simp
  from False binade_mono [OF assms] have "binade x + 1 \<le> binade y" by simp
  then have "(2::rat) powi (binade x + 1) \<le> 2 powi binade y"
    by (intro power_int_increasing) simp_all
  with roundPositive_range [OF assms(1)] roundPositive_range [OF y] show ?thesis by linarith
qed

lemma roundDouble_nonneg: "0 \<le> x \<Longrightarrow> 0 \<le> roundDouble x"
  using roundPositive_pos [of x] by (auto simp: roundDouble_def)

lemma roundDouble_mono:
  assumes "0 \<le> x" and "x \<le> y"
  shows "roundDouble x \<le> roundDouble y"
proof (cases "x = 0")
  case True
  with assms roundDouble_nonneg [of y] show ?thesis by (simp add: roundDouble_def)
next
  case False
  with assms have "0 < x" "0 < y" by simp_all
  with roundPositive_mono [OF \<open>0 < x\<close> assms(2)] show ?thesis by (simp add: roundDouble_def)
qed

lemma roundDouble_eq:
  assumes "0 < x" and "2 powi e \<le> x" and "x < 2 powi (e + 1)"
  shows "roundDouble x = of_int (roundHalfEven (x / 2 powi (e - 52))) * 2 powi (e - 52)"
  using assms binade_unique [OF assms] by (simp add: roundDouble_def roundPositive_def Let_def)

lemma roundDouble_representable:
  assumes "2 ^ 52 \<le> m" and "m < 2 ^ 53"
  shows "roundDouble (of_int m * 2 powi e) = of_int m * 2 powi e"
proof -
  let ?x = "of_int m * (2::rat) powi e"
  have u: "0 < (2::rat) powi e" by simp
  from assms have m: "(2::rat) ^ 52 \<le> of_int m" "(of_int m::rat) < 2 ^ 53"
    by (metis of_int_le_iff of_int_numeral of_int_power, metis of_int_less_iff of_int_numeral of_int_power)
  then have pos: "0 < ?x" using u by (simp add: zero_less_mult_iff) 
  have lo: "(2::rat) powi (e + 52) = 2 ^ 52 * 2 powi e"
    using power_int_add [of "2::rat" 52 e] by (simp add: add.commute)
  have hi: "(2::rat) powi (e + 52 + 1) = 2 ^ 53 * 2 powi e"
    using power_int_add [of "2::rat" 53 e] by (simp add: add.commute)
  from m(1) u have 1: "2 powi (e + 52) \<le> ?x" by (simp only: lo mult_le_cancel_right_pos)
  from m(2) u have 2: "?x < 2 powi (e + 52 + 1)" by (simp only: hi mult_less_cancel_right_pos)
  from roundDouble_eq [OF pos 1 2] show ?thesis by (simp add: roundHalfEven_of_int)
qed

lemma roundDouble_1: "roundDouble 1 = 1"
  using roundDouble_representable [of "2 ^ 52" "- 52"] by simp

lemma roundDouble_100: "roundDouble 100 = 100"
  using roundDouble_representable [of "100 * 2 ^ 46" "- 46"] by simp

lemma roundDouble_2: "roundDouble 2 = 2"
  using roundDouble_representable [of "2 ^ 52" "- 51"] by simp

lemma roundDouble_200: "roundDouble 200 = 200"
  using roundDouble_representable [of "100 * 2 ^ 46" "- 45"] by simp

lemma roundDouble_half: "roundDouble (1 / 2) = 1 / 2"
  using roundDouble_representable [of "2 ^ 52" "- 53"] by simp

lemma roundDouble_50: "roundDouble 50 = 50"
  using roundDouble_representable [of "100 * 2 ^ 46" "- 47"] by simp

lemma roundDouble_below_1: "roundDouble (1 - 1 / 2 ^ 53) = 1 - 1 / 2 ^ 53"
  using roundDouble_representable [of "2 ^ 53 - 1" "- 53"] by simp

lemma roundHalfEven_eqI:
  assumes "of_int r - 1 / 2 < y" and "y < of_int r + 1 / 2"
  shows "roundHalfEven y = r"
proof -
  from assms have "\<lfloor>y\<rfloor> = r \<or> \<lfloor>y\<rfloor> = r - 1" by linarith
  then show ?thesis
  proof
    assume f: "\<lfloor>y\<rfloor> = r"
    with assms(2) show ?thesis by (simp add: roundHalfEven_def Let_def)
  next
    assume f: "\<lfloor>y\<rfloor> = r - 1"
    with assms(1) show ?thesis by (simp add: roundHalfEven_def Let_def)
  qed
qed

lemma roundDouble_below_100: "roundDouble (100 - 100 / 2 ^ 53) = 100 - 1 / 2 ^ 46"
proof -
  have "roundDouble (100 - 100 / 2 ^ 53) =
        of_int (roundHalfEven ((100 - 100 / 2 ^ 53) / 2 powi (6 - 52))) * 2 powi (6 - 52)"
    by (rule roundDouble_eq) simp_all
  also have "roundHalfEven ((100 - 100 / 2 ^ 53) / 2 powi (6 - 52)) = 100 * 2 ^ 46 - 1"
    by (rule roundHalfEven_eqI) simp_all
  also have "of_int (100 * 2 ^ 46 - 1) * 2 powi (6 - 52) = (100 - 1 / 2 ^ 46 :: rat)"
    by simp
  finally show ?thesis .
qed

lemma percent_nonneg: "0 \<le> percent j n"
  unfolding percent_def by (intro zero_le_floor [THEN iffD2] roundDouble_nonneg mult_nonneg_nonneg) simp_all

lemma percent_mono:
  assumes "j \<le> k"
  shows "percent j n \<le> percent k n"
proof -
  have "(of_nat j :: rat) / of_nat n \<le> of_nat k / of_nat n"
    using assms by (simp add: divide_right_mono)
  then have "roundDouble (of_nat j / of_nat n) \<le> roundDouble (of_nat k / of_nat n)"
    by (intro roundDouble_mono) simp_all
  then have "roundDouble (of_nat j / of_nat n) * 100 \<le> roundDouble (of_nat k / of_nat n) * 100"
    by simp
  then have "roundDouble (roundDouble (of_nat j / of_nat n) * 100)
          \<le> roundDouble (roundDouble (of_nat k / of_nat n) * 100)"
    by (intro roundDouble_mono mult_nonneg_nonneg roundDouble_nonneg) simp_all
  then show ?thesis unfolding percent_def by (rule floor_mono)
qed

lemma percent_full: "0 < n \<Longrightarrow> percent n n = 100"
  by (simp add: percent_def roundDouble_1 roundDouble_100)

lemma percent_below:
  assumes "j < n" and "n \<le> 2 ^ 53"
  shows "percent j n \<le> 99"
proof -
  from assms have n: "0 < n" by simp
  have "(of_nat j :: rat) / of_nat n \<le> 1 - 1 / of_nat n"
  proof -
    from assms(1) have "(of_nat j :: rat) \<le> of_nat n - 1"
      by (metis Suc_leI of_nat_Suc of_nat_le_iff le_diff_eq add.commute)
    then have "(of_nat j :: rat) / of_nat n \<le> (of_nat n - 1) / of_nat n"
      by (simp add: divide_right_mono)
    also have "\<dots> = 1 - 1 / of_nat n" using n by (simp add: diff_divide_distrib)
    finally show ?thesis .
  qed
  also have "1 - 1 / (of_nat n :: rat) \<le> 1 - 1 / 2 ^ 53"
  proof -
    from assms(2) have "(of_nat n :: rat) \<le> 2 ^ 53" by (rule of_nat_le_pow2)
    then have "1 / (2::rat) ^ 53 \<le> 1 / of_nat n" using n by (intro divide_left_mono) simp_all
    then show ?thesis by simp
  qed
  finally have q: "(of_nat j :: rat) / of_nat n \<le> 1 - 1 / 2 ^ 53" .
  have "roundDouble (of_nat j / of_nat n) \<le> roundDouble (1 - 1 / 2 ^ 53)"
    using q by (intro roundDouble_mono) simp_all
  then have "roundDouble (of_nat j / of_nat n) \<le> 1 - 1 / 2 ^ 53"
    by (simp only: roundDouble_below_1)
  then have "roundDouble (of_nat j / of_nat n) * 100 \<le> (1 - 1 / 2 ^ 53) * 100"
    by (rule mult_right_mono) simp
  also have "(1 - 1 / 2 ^ 53) * 100 = (100 - 100 / 2 ^ 53 :: rat)" by simp
  finally have "roundDouble (roundDouble (of_nat j / of_nat n) * 100)
          \<le> roundDouble (100 - 100 / 2 ^ 53)"
    by (intro roundDouble_mono mult_nonneg_nonneg roundDouble_nonneg) simp_all
  then have "roundDouble (roundDouble (of_nat j / of_nat n) * 100) \<le> 100 - 1 / 2 ^ 46"
    by (simp only: roundDouble_below_100)
  also have "(100 - 1 / 2 ^ 46 :: rat) < 100" by simp
  finally have "roundDouble (roundDouble (of_nat j / of_nat n) * 100) < 100" .
  then have "percent j n < 100" unfolding percent_def by (simp add: floor_less_iff)
  then show ?thesis by simp
qed

lemma percent_29_100: "percent 29 100 = 28"
proof -
  have a: "roundDouble (29 / 100) = 5224175567749775 / 2 ^ 54"
  proof -
    have "roundDouble (29 / 100) =
        of_int (roundHalfEven ((29 / 100) / 2 powi (- 2 - 52))) * 2 powi (- 2 - 52)"
      by (rule roundDouble_eq) simp_all
    also have "roundHalfEven ((29 / 100) / 2 powi (- 2 - 52)) = 5224175567749775"
      by (rule roundHalfEven_eqI) simp_all
    also have "of_int 5224175567749775 * 2 powi (- 2 - 52) = (5224175567749775 / 2 ^ 54 :: rat)"
      by simp
    finally show ?thesis .
  qed
  have b: "roundDouble (5224175567749775 / 2 ^ 54 * 100) = 8162774324609023 / 2 ^ 48"
  proof -
    have "roundDouble (5224175567749775 / 2 ^ 54 * 100) =
        of_int (roundHalfEven ((5224175567749775 / 2 ^ 54 * 100) / 2 powi (4 - 52)))
          * 2 powi (4 - 52)"
      by (rule roundDouble_eq) simp_all
    also have "roundHalfEven ((5224175567749775 / 2 ^ 54 * 100) / 2 powi (4 - 52)) =
        8162774324609023"
      by (rule roundHalfEven_eqI) simp_all
    also have "of_int 8162774324609023 * 2 powi (4 - 52) = (8162774324609023 / 2 ^ 48 :: rat)"
      by simp
    finally show ?thesis .
  qed
  have "percent 29 100 = \<lfloor>roundDouble (roundDouble (29 / 100) * 100)\<rfloor>"
    by (simp add: percent_def)
  also have "\<dots> = \<lfloor>8162774324609023 / 2 ^ 48 :: rat\<rfloor>" by (simp only: a b)
  also have "\<dots> = 28" by (simp add: floor_eq_iff)
  finally show ?thesis .
qed

lemma roundHalfEven_error: "\<bar>of_int (roundHalfEven y) - y\<bar> \<le> 1 / 2"
proof -
  have "of_int \<lfloor>y\<rfloor> \<le> y" "y < of_int \<lfloor>y\<rfloor> + 1" by linarith+
  then show ?thesis by (auto simp: roundHalfEven_def Let_def)
qed

lemma roundDouble_error:
  assumes "0 < x"
  shows "\<bar>roundDouble x - x\<bar> \<le> x / 2 ^ 53"
proof -
  let ?u = "(2::rat) powi (binade x - 52)"
  let ?r = "roundHalfEven (x / ?u)"
  have u: "0 < ?u" by simp
  have "roundDouble x - x = (of_int ?r - x / ?u) * ?u"
    using assms u by (simp add: roundDouble_def roundPositive_def Let_def left_diff_distrib)
  then have "\<bar>roundDouble x - x\<bar> = \<bar>of_int ?r - x / ?u\<bar> * ?u"
    using u by (simp add: abs_mult)
  also have "\<dots> \<le> 1 / 2 * ?u"
    using roundHalfEven_error [of "x / ?u"] u by (intro mult_right_mono) simp_all
  also have "\<dots> \<le> x / 2 ^ 53"
  proof -
    from binade_bounds [OF assms] have "2 ^ 52 * ?u \<le> x" by (simp only: pow2_split(1) [symmetric])
    then show ?thesis by simp
  qed
  finally show ?thesis .
qed

lemma percent_error:
  assumes "0 < n" and "c \<le> n"
  shows "\<bar>roundDouble (roundDouble (of_nat c / of_nat n) * 100) - 100 * of_nat c / of_nat n\<bar>
         \<le> 201 / 2 ^ 53"
proof (cases "c = 0")
  case True
  then show ?thesis by (simp add: roundDouble_def)
next
  case False
  define eps :: rat where "eps = 1 / 2 ^ 53"
  have eps: "0 < eps" "eps \<le> 1 / 100" by (simp_all add: eps_def)
  define a :: rat where "a = of_nat c / of_nat n"
  define q where "q = roundDouble a"
  define p where "p = q * 100"
  from False assms have a: "0 < a" "a \<le> 1" by (simp_all add: a_def)
  from roundDouble_error [OF a(1)] have "\<bar>q - a\<bar> \<le> a * eps" by (simp add: q_def eps_def)
  also from a(2) eps(1) have "a * eps \<le> 1 * eps" by (intro mult_right_mono) simp_all
  finally have q: "\<bar>q - a\<bar> \<le> eps" by simp
  from a(1) have "0 < q" by (simp add: q_def roundDouble_def roundPositive_pos)
  then have p0: "0 < p" by (simp add: p_def)
  have pq: "p = 100 * q" by (simp add: p_def)
  from q a(2) eps have p1: "p \<le> 101" unfolding pq by linarith
  from q have pa: "\<bar>p - 100 * a\<bar> \<le> 100 * eps" unfolding pq by linarith
  from roundDouble_error [OF p0] have "\<bar>roundDouble p - p\<bar> \<le> p * eps" by (simp add: eps_def)
  also from p1 eps(1) have "p * eps \<le> 101 * eps" by (intro mult_right_mono) simp_all
  finally have "\<bar>roundDouble p - p\<bar> \<le> 101 * eps" .
  with pa have "\<bar>roundDouble p - 100 * a\<bar> \<le> 201 * eps" by linarith
  then show ?thesis by (simp add: p_def q_def a_def eps_def)
qed

lemma exact_percent_bounds:
  assumes "0 < n"
  shows "of_int (int (100 * c div n)) \<le> (100 * of_nat c / of_nat n :: rat)"
    and "(100 * of_nat c / of_nat n :: rat) \<le> of_int (int (100 * c div n)) + 1 - 1 / of_nat n"
proof -
  have eq: "100 * c = n * (100 * c div n) + 100 * c mod n" by simp
  then have "(of_nat (100 * c) :: rat) = of_nat (n * (100 * c div n) + 100 * c mod n)"
    by (simp only:)
  then have r: "(100 * of_nat c :: rat) =
      of_nat n * of_nat (100 * c div n) + of_nat (100 * c mod n)"
    by (simp only: of_nat_add of_nat_mult of_nat_numeral)
  have n: "(0::rat) < of_nat n" using assms by simp
  have m: "100 * c mod n \<le> n - 1" using assms by (simp add: less_Suc_eq_le [symmetric])
  then have "(of_nat (100 * c mod n) :: rat) \<le> of_nat (n - 1)" by (simp only: of_nat_le_iff)
  also have "(of_nat (n - 1) :: rat) = of_nat n - 1" using assms by (simp add: of_nat_diff)
  finally have m': "(of_nat (100 * c mod n) :: rat) \<le> of_nat n - 1" .
  have d: "(100 * of_nat c / of_nat n :: rat) =
           of_nat (100 * c div n) + of_nat (100 * c mod n) / of_nat n"
    using n by (simp add: r add_divide_distrib)
  show "of_int (int (100 * c div n)) \<le> (100 * of_nat c / of_nat n :: rat)"
    using n by (simp add: d)
  have "(of_nat (100 * c mod n) :: rat) / of_nat n \<le> (of_nat n - 1) / of_nat n"
    using m' n by (simp add: divide_right_mono)
  also have "\<dots> = 1 - 1 / of_nat n" using n by (simp add: diff_divide_distrib)
  finally show "(100 * of_nat c / of_nat n :: rat) \<le> of_int (int (100 * c div n)) + 1 - 1 / of_nat n"
    by (simp add: d)
qed

lemma percent_exact_or_one_less:
  assumes "0 < n" and "c \<le> n" and "n \<le> 2 ^ 32"
  shows "percent c n = int (100 * c div n) \<or> percent c n = int (100 * c div n) - 1"
proof -
  define v :: rat where "v = 100 * of_nat c / of_nat n"
  define M where "M = int (100 * c div n)"
  define p where "p = roundDouble (roundDouble (of_nat c / of_nat n) * 100)"
  define d :: rat where "d = 201 / 2 ^ 53"
  define r :: rat where "r = 1 / of_nat n"
  from percent_error [OF assms(1,2)] have e: "\<bar>p - v\<bar> \<le> d" by (simp only: p_def v_def d_def)
  from exact_percent_bounds [OF assms(1), of c]
  have v: "of_int M \<le> v" "v \<le> of_int M + 1 - r" by (simp_all only: v_def M_def r_def)
  have "(of_nat n :: rat) \<le> 2 ^ 32" using assms(3) by (rule of_nat_le_pow2)
  then have "1 / (2::rat) ^ 32 \<le> r"
    unfolding r_def using assms(1) by (intro divide_left_mono) simp_all
  moreover have "d < 1 / (2::rat) ^ 32" by (simp add: d_def)
  ultimately have n: "d < r" by linarith
  have d1: "d < 1" by (simp add: d_def)
  from e v(2) n have hi: "p < of_int (M + 1)" by (simp only: of_int_add of_int_1; linarith?)
  from e v(1) d1 have lo: "of_int (M - 1) \<le> p" by (simp only: of_int_diff of_int_1; linarith?)
  from hi have "\<lfloor>p\<rfloor> < M + 1" by (simp only: floor_less_iff)
  moreover from lo have "M - 1 \<le> \<lfloor>p\<rfloor>" by (simp only: le_floor_iff)
  ultimately show ?thesis unfolding percent_def p_def [symmetric] M_def [symmetric] by linarith
qed

section \<open>Strings: basic facts\<close>

lemma includes_iff: "includesStr target search \<longleftrightarrow> (\<exists>before after. target = before @ search @ after)"
proof (induction target)
  case Nil
  then show ?case by auto
next
  case (Cons c cs)
  show ?case
  proof
    assume "includesStr (c # cs) search"
    then consider "prefix search (c # cs)" | "includesStr cs search" by auto
    then show "\<exists>before after. c # cs = before @ search @ after"
    proof cases
      case 1
      then obtain after where "c # cs = search @ after" by (auto simp: prefix_def)
      then have "c # cs = [] @ search @ after" by simp
      then show ?thesis by blast
    next
      case 2
      with Cons.IH obtain before after where "cs = before @ search @ after" by blast
      then have "c # cs = (c # before) @ search @ after" by simp
      then show ?thesis by blast
    qed
  next
    assume "\<exists>before after. c # cs = before @ search @ after"
    then obtain before after where eq: "c # cs = before @ search @ after" by blast
    show "includesStr (c # cs) search"
    proof (cases before)
      case Nil
      with eq have "prefix search (c # cs)" by (simp add: prefix_def)
      then show ?thesis by simp
    next
      case (Cons b bs)
      with eq have "cs = bs @ search @ after" by simp
      with Cons.IH have "includesStr cs search" by blast
      then show ?thesis by simp
    qed
  qed
qed

lemma isWhiteSpace_lowerUnit: "isWhiteSpace (lowerUnit c) = isWhiteSpace c"
  by (auto simp: isWhiteSpace_def lowerUnit_def)

lemma dropWhile_ws_ascii:
  "dropWhile isWhiteSpace (asciiLowerCase s) = asciiLowerCase (dropWhile isWhiteSpace s)"
  by (induction s) (simp_all add: asciiLowerCase_def isWhiteSpace_lowerUnit)

lemma trim_asciiLowerCase: "trim (asciiLowerCase s) = asciiLowerCase (trim s)"
proof -
  have r: "rev (asciiLowerCase t) = asciiLowerCase (rev t)" for t
    by (simp add: asciiLowerCase_def rev_map)
  show ?thesis
    unfolding trim_def dropWhile_ws_ascii r ..
qed

lemma lowering_asciiLowerCase: "lowering asciiLowerCase"
  by (simp add: lowering_def trim_asciiLowerCase) (simp add: asciiLowerCase_def)

lemma lowering_Nil: "lowering toLowerCase \<Longrightarrow> toLowerCase [] = []"
  by (simp add: lowering_def)

lemma lowering_trim: "lowering toLowerCase \<Longrightarrow> trim (toLowerCase s) = toLowerCase (trim s)"
  by (simp add: lowering_def)

lemma js_simps: "js [] = []" "js (c # cs) = of_char c # js cs"
  by (simp_all add: js_def)

lemma includes_lower_iff:
  "includesStr (toLowerCase field) (toLowerCase keyword) \<longleftrightarrow>
   caseInsensitiveSubstring toLowerCase keyword field"
  by (simp add: includes_iff caseInsensitiveSubstring_def)

lemma ci_empty_keyword:
  assumes "toLowerCase keyword = []"
  shows "caseInsensitiveSubstring toLowerCase keyword field"
proof -
  have "toLowerCase field = toLowerCase field @ toLowerCase keyword @ []"
    using assms by simp
  then show ?thesis unfolding caseInsensitiveSubstring_def by blast
qed

lemma ci_Nil: "caseInsensitiveSubstring asciiLowerCase keyword [] \<longleftrightarrow> keyword = []"
  by (simp add: caseInsensitiveSubstring_def asciiLowerCase_def)

section \<open>The keyword test\<close>

text \<open>
  Claim C1. Whatever lowering the runtime applies, provided it keeps the empty string
  empty and commutes with \<open>trim\<close>, the keyword test of \<open>applyCombinedFilter\<close> passes a
  feature exactly when the keyword, once trimmed, is empty or occurs, without regard to
  case, in at least one of \<open>name_poi\<close>, \<open>flag_poi\<close>, \<open>blog_source\<close> and \<open>title_source\<close>,
  an absent field counting as the empty string.
\<close>

theorem keyword_test_iff:
  assumes "lowering toLowerCase"
  shows "keywordTest toLowerCase (effectiveKeyword toLowerCase typed) p \<longleftrightarrow>
     trim typed = []
     \<or> caseInsensitiveSubstring toLowerCase (trim typed) (orEmpty (name_poi p))
     \<or> caseInsensitiveSubstring toLowerCase (trim typed) (orEmpty (flag_poi p))
     \<or> caseInsensitiveSubstring toLowerCase (trim typed) (orEmpty (blog_source p))
     \<or> caseInsensitiveSubstring toLowerCase (trim typed) (orEmpty (title_source p))"
proof -
  have e: "effectiveKeyword toLowerCase typed = toLowerCase (trim typed)"
    by (simp add: effectiveKeyword_def lowering_trim [OF assms])
  show ?thesis
  proof (cases "toLowerCase (trim typed) = []")
    case True
    then have "caseInsensitiveSubstring toLowerCase (trim typed) (orEmpty (name_poi p))"
      by (rule ci_empty_keyword)
    with True show ?thesis by (simp add: keywordTest_def e)
  next
    case False
    with lowering_Nil [OF assms] have "trim typed \<noteq> []" by auto
    with False show ?thesis
      by (simp add: keywordTest_def e searchTargets_def includes_lower_iff)
  qed
qed

theorem keyword_test_iff_witness:
  "lowering asciiLowerCase
   \<and> keywordTest asciiLowerCase (effectiveKeyword asciiLowerCase (js '' CAFE '')) cafeProps
   \<and> trim (js '' CAFE '') \<noteq> []
   \<and> (caseInsensitiveSubstring asciiLowerCase (trim (js '' CAFE '')) (js ''Blue Cafe'')
      \<or> caseInsensitiveSubstring asciiLowerCase (trim (js '' CAFE '')) (js ''Morning COFFEE''))"
proof -
  have k: "keywordTest asciiLowerCase (effectiveKeyword asciiLowerCase (js '' CAFE '')) cafeProps"
    by (simp add: keywordTest_def effectiveKeyword_def trim_def isWhiteSpace_def
        searchTargets_def cafeProps_def orEmpty_def asciiLowerCase_def lowerUnit_def js_simps)
  from k keyword_test_iff [OF lowering_asciiLowerCase, of "js '' CAFE ''" cafeProps]
    lowering_asciiLowerCase
  show ?thesis
    by (simp add: trim_def isWhiteSpace_def cafeProps_def orEmpty_def ci_Nil js_simps)
qed

section \<open>The category test\<close>

lemma find_fst_map_of:
  "(case find (\<lambda>c. fst c = k) xs of Some c \<Rightarrow> snd c | None \<Rightarrow> []) =
   (case map_of xs k of Some v \<Rightarrow> v | None \<Rightarrow> [])"
  by (induction xs) auto

lemma collectCategoryKeywords_keywordsOf:
  "collectCategoryKeywords selected = concat (map keywordsOf selected)"
  unfolding collectCategoryKeywords_def keywordsOf_def find_fst_map_of ..

lemma keywordsOf_known:
  "categoryId \<in> fst ` set categoryOptions \<Longrightarrow> keywordsOf categoryId \<noteq> []"
  by (auto simp: categoryOptions_def keywordsOf_def)

lemma collect_empty_iff:
  assumes "set selected \<subseteq> fst ` set categoryOptions"
  shows "collectCategoryKeywords selected = [] \<longleftrightarrow> selected = []"
proof (cases selected)
  case Nil
  then show ?thesis by (simp add: collectCategoryKeywords_keywordsOf)
next
  case (Cons c cs)
  with assms have "keywordsOf c \<noteq> []" by (simp add: keywordsOf_known)
  with Cons show ?thesis by (simp add: collectCategoryKeywords_keywordsOf)
qed

text \<open>
  Claim C2. With every selected category one of the table, the category test passes a
  feature exactly when no category is selected, or some keyword of some selected category
  occurs, without regard to case, in \<open>name_poi\<close> or in \<open>title_source\<close>: a disjunction over
  the selected categories and over the keywords of each.
\<close>

theorem category_test_iff:
  assumes "set selected \<subseteq> fst ` set categoryOptions"
  shows "categoryTest toLowerCase (collectCategoryKeywords selected) p \<longleftrightarrow>
     selected = []
     \<or> (\<exists>categoryId \<in> set selected. \<exists>keyword \<in> set (keywordsOf categoryId).
           caseInsensitiveSubstring toLowerCase keyword (orEmpty (name_poi p))
           \<or> caseInsensitiveSubstring toLowerCase keyword (orEmpty (title_source p)))"
proof (cases "selected = []")
  case True
  then show ?thesis by (simp add: categoryTest_def collectCategoryKeywords_keywordsOf)
next
  case False
  with assms have ne: "collectCategoryKeywords selected \<noteq> []"
    by (simp add: collect_empty_iff)
  show ?thesis
    using False ne
    by (auto simp: categoryTest_def categoryTargets_def list_ex_iff includes_lower_iff
        collectCategoryKeywords_keywordsOf)
qed

theorem category_test_iff_witness:
  "set [js ''sushi'', js ''cafe''] \<subseteq> fst ` set categoryOptions
   \<and> categoryTest asciiLowerCase (collectCategoryKeywords [js ''sushi'', js ''cafe'']) cafeProps"
proof -
  have h: "set [js ''sushi'', js ''cafe''] \<subseteq> fst ` set categoryOptions"
    by (simp add: categoryOptions_def)
  have "js ''coffee'' \<in> set (keywordsOf (js ''cafe''))"
    by (simp add: keywordsOf_def categoryOptions_def js_simps)
  moreover have
    "caseInsensitiveSubstring asciiLowerCase (js ''coffee'') (orEmpty (title_source cafeProps))"
  proof -
    have "asciiLowerCase (js ''Morning COFFEE'') =
          js ''morning '' @ asciiLowerCase (js ''coffee'') @ []"
      by (simp add: asciiLowerCase_def lowerUnit_def js_simps)
    then show ?thesis
      unfolding caseInsensitiveSubstring_def cafeProps_def orEmpty_def
      by (simp del: append_Nil2) blast
  qed
  ultimately have
    "\<exists>categoryId \<in> set [js ''sushi'', js ''cafe'']. \<exists>keyword \<in> set (keywordsOf categoryId).
        caseInsensitiveSubstring asciiLowerCase keyword (orEmpty (name_poi cafeProps))
        \<or> caseInsensitiveSubstring asciiLowerCase keyword (orEmpty (title_source cafeProps))"
    by auto
  with category_test_iff [OF h, where toLowerCase = asciiLowerCase and p = cafeProps] h
  show ?thesis by blast
qed

section \<open>Applying the filter\<close>

lemma setFilters_simps:
  "layerFilter (setFilters s e) PoiPoints = e"
  "layerFilter (setFilters s e) PoiHeat = e"
  "layerFilter (setFilters s e) PoiText = e"
  "layerFilter (setFilters s e) PoiPseudo = layerFilter s PoiPseudo"
  "poiData (setFilters s e) = poiData s"
  "mapExists (setFilters s e) = mapExists s"
  "isDataLoaded (setFilters s e) = isDataLoaded s"
  "currentVisiblePOIs (setFilters s e) = currentVisiblePOIs s"
  by (simp_all add: setFilters_def)

lemma updateCenterPOIs_frame:
  "layerFilter (updateCenterPOIs s rendered) = layerFilter s"
  "poiData (updateCenterPOIs s rendered) = poiData s"
  "currentVisiblePOIs (updateCenterPOIs s rendered) = currentVisiblePOIs s"
  "setDataCalls (updateCenterPOIs s rendered) = setDataCalls s"
  "filterKeyword (updateCenterPOIs s rendered) = filterKeyword s"
  "selectedPeriod (updateCenterPOIs s rendered) = selectedPeriod s"
  "selectedCategories (updateCenterPOIs s rendered) = selectedCategories s"
  by (simp_all add: updateCenterPOIs_def)

lemma evalFilter_noResult: "evalFilter noResultFilter f = False"
  by (simp add: noResultFilter_def propertyNames_def js_simps split: option.splits)

lemma applyFilter_active:
  assumes "mapExists s" "isDataLoaded s" "criterionActive s"
  shows "layerFilter (applyFilter toLowerCase s nowMs rendered) = layerFilter (applyCombinedFilter toLowerCase s nowMs)"
  using assms by (simp add: applyFilter_def updateCenterPOIs_frame)

lemma applyCombinedFilter_layers:
  "layerFilter (applyCombinedFilter toLowerCase s nowMs) =
     layerFilter (setFilters s (Some (if matchingFeatures toLowerCase s nowMs = [] then noResultFilter
        else MatchFid (matchingFids (matchingFeatures toLowerCase s nowMs)))))"
  by (simp add: applyCombinedFilter_def Let_def setFilters_def)

lemma matchingFids_nonempty:
  assumes "fs \<noteq> []" "list_all (\<lambda>f. fidOf f \<noteq> None) fs"
  shows "matchingFids fs \<noteq> []"
proof -
  from assms obtain f rest where fs: "fs = f # rest" by (cases fs) auto
  with assms obtain i where "fidOf f = Some i" by auto
  with fs show ?thesis by (simp add: matchingFids_def List.map_filter_simps)
qed

lemma list_all_matching:
  "list_all P (poiData s) \<Longrightarrow> list_all P (matchingFeatures toLowerCase s nowMs)"
  by (simp add: matchingFeatures_def list_all_iff)

lemma sentinel_when_no_match:
  assumes "mapExists s" and "isDataLoaded s" and "criterionActive s"
    and "matchingFeatures toLowerCase s nowMs = []"
  shows "layerFilter (applyFilter toLowerCase s nowMs rendered) PoiPoints = Some noResultFilter
       \<and> layerFilter (applyFilter toLowerCase s nowMs rendered) PoiHeat = Some noResultFilter
       \<and> layerFilter (applyFilter toLowerCase s nowMs rendered) PoiText = Some noResultFilter
       \<and> layerFilter (applyFilter toLowerCase s nowMs rendered) PoiPseudo = layerFilter s PoiPseudo
       \<and> (\<forall>f. \<not> evalFilter noResultFilter f)"
  using assms
  by (simp add: applyFilter_active applyCombinedFilter_layers setFilters_simps
      evalFilter_noResult)

lemma match_list_never_empty:
  assumes "mapExists s" and "isDataLoaded s"
    and "list_all (\<lambda>f. fidOf f \<noteq> None) (poiData s)"
  shows "layerFilter (applyFilter toLowerCase s nowMs rendered) PoiPoints \<noteq> Some (MatchFid [])
       \<and> layerFilter (applyFilter toLowerCase s nowMs rendered) PoiHeat \<noteq> Some (MatchFid [])
       \<and> layerFilter (applyFilter toLowerCase s nowMs rendered) PoiText \<noteq> Some (MatchFid [])"
proof (cases "criterionActive s")
  case True
  show ?thesis
  proof (cases "matchingFeatures toLowerCase s nowMs = []")
    case True
    with assms \<open>criterionActive s\<close> show ?thesis
      by (simp add: applyFilter_active applyCombinedFilter_layers setFilters_simps
          noResultFilter_def)
  next
    case False
    with assms(3) have "matchingFids (matchingFeatures toLowerCase s nowMs) \<noteq> []"
      by (simp add: matchingFids_nonempty list_all_matching)
    with False assms \<open>criterionActive s\<close> show ?thesis
      by (simp add: applyFilter_active applyCombinedFilter_layers setFilters_simps)
  qed
next
  case False
  with assms show ?thesis
    by (simp add: applyFilter_def updateCenterPOIs_frame clearAllFilters_def setFilters_simps)
qed

lemma loadedState_eval:
  "mapExists loadedState" "isDataLoaded loadedState"
  "poiData loadedState = [cafeFeature, barFeature]"
  "layerFilter loadedState = (\<lambda>l. None)"
  "filterKeyword loadedState = []" "selectedPeriod loadedState = 0"
  "selectedCategories loadedState = []"
  "currentVisiblePOIs loadedState = 2"
  by (simp_all add: loadedState_def loadPOIData_def mapLoaded_def initialState_def
      decodeStep_def updateMapData_def flushDue_def Let_def)

lemma zzz_no_match: "matchingFeatures asciiLowerCase (loadedState\<lparr>filterKeyword := js ''zzz''\<rparr>) nowMs = []"
  by (simp add: matchingFeatures_def loadedState_eval featureMatches_def cafeFeature_def
      barFeature_def cafeProps_def keywordTest_def effectiveKeyword_def trim_def
      isWhiteSpace_def asciiLowerCase_def lowerUnit_def searchTargets_def orEmpty_def js_simps)

lemma zzz_active: "criterionActive (loadedState\<lparr>filterKeyword := js ''zzz''\<rparr>)"
  by (simp add: criterionActive_def trim_def isWhiteSpace_def js_simps)

lemma cafe_match:
  "matchingFeatures asciiLowerCase (loadedState\<lparr>filterKeyword := js ''cafe''\<rparr>) nowMs = [cafeFeature]"
  by (simp add: matchingFeatures_def loadedState_eval featureMatches_def cafeFeature_def
      barFeature_def cafeProps_def keywordTest_def effectiveKeyword_def trim_def
      isWhiteSpace_def asciiLowerCase_def lowerUnit_def searchTargets_def orEmpty_def js_simps
      periodTest_def categoryTest_def collectCategoryKeywords_def)

lemma cafe_active: "criterionActive (loadedState\<lparr>filterKeyword := js ''cafe''\<rparr>)"
  by (simp add: criterionActive_def trim_def isWhiteSpace_def js_simps)

lemma afterCafe_eval:
  "mapExists afterCafe" "isDataLoaded afterCafe"
  "poiData afterCafe = [cafeFeature, barFeature]"
  "currentVisiblePOIs afterCafe = 1"
  "selectedPeriod afterCafe = 0" "selectedCategories afterCafe = []"
  "layerFilter afterCafe PoiPoints = Some (MatchFid [1])"
  "layerFilter afterCafe PoiPseudo = None"
  using cafe_match [of 0] cafe_active
  by (simp_all add: afterCafe_def keywordInput_def applyFilter_def loadedState_eval
      updateCenterPOIs_def applyCombinedFilter_def setFilters_def matchingFids_def
      List.map_filter_simps fidOf_def cafeFeature_def cafeProps_def)

section \<open>The sentinel for an empty result\<close>

text \<open>
  Claim C3, as stated, asks for the sentinel on every rendering layer. The component has
  four layers and filters three of them: \<open>poi-pseudo\<close> is never given a filter. With the
  keyword \<open>zzz\<close> a criterion is active and nothing matches, and the filter of
  \<open>poi-pseudo\<close> is still none.
\<close>

theorem pseudo_layer_gets_no_sentinel:
  "criterionActive (loadedState\<lparr>filterKeyword := js ''zzz''\<rparr>)
   \<and> matchingFeatures asciiLowerCase (loadedState\<lparr>filterKeyword := js ''zzz''\<rparr>) 0 = []
   \<and> layerFilter (keywordInput asciiLowerCase loadedState (js ''zzz'') 0 []) PoiPseudo = None
   \<and> layerFilter (keywordInput asciiLowerCase loadedState (js ''zzz'') 0 []) PoiPseudo \<noteq> Some noResultFilter"
  using zzz_no_match [of 0] zzz_active
  by (simp add: keywordInput_def applyFilter_active loadedState_eval applyCombinedFilter_layers
      setFilters_simps)

text \<open>
  Claim C3, amended. With the map present and the data loaded: when a criterion is active
  and no feature of the store passes the tests, \<open>applyFilter\<close> sets the filter of
  \<open>poi-points\<close>, \<open>poi-heat\<close> and \<open>poi-text\<close> to the sentinel \<open>['has', 'poi_nonexistent']\<close>,
  which no feature satisfies, and leaves the filter of \<open>poi-pseudo\<close> as it was; and when
  every stored feature carries a \<open>fid\<close>, none of the three layers is ever given a match
  expression with an empty id list.
\<close>

theorem no_match_sets_sentinel:
  assumes "mapExists s" and "isDataLoaded s"
  shows "(criterionActive s \<and> matchingFeatures toLowerCase s nowMs = [] \<longrightarrow>
            layerFilter (applyFilter toLowerCase s nowMs rendered) PoiPoints = Some noResultFilter
          \<and> layerFilter (applyFilter toLowerCase s nowMs rendered) PoiHeat = Some noResultFilter
          \<and> layerFilter (applyFilter toLowerCase s nowMs rendered) PoiText = Some noResultFilter
          \<and> layerFilter (applyFilter toLowerCase s nowMs rendered) PoiPseudo = layerFilter s PoiPseudo
          \<and> (\<forall>f. \<not> evalFilter noResultFilter f))
       \<and> (list_all (\<lambda>f. fidOf f \<noteq> None) (poiData s) \<longrightarrow>
            layerFilter (applyFilter toLowerCase s nowMs rendered) PoiPoints \<noteq> Some (MatchFid [])
          \<and> layerFilter (applyFilter toLowerCase s nowMs rendered) PoiHeat \<noteq> Some (MatchFid [])
          \<and> layerFilter (applyFilter toLowerCase s nowMs rendered) PoiText \<noteq> Some (MatchFid []))"
proof (intro conjI impI)
  assume a: "criterionActive s \<and> matchingFeatures toLowerCase s nowMs = []"
  then have "criterionActive s" and "matchingFeatures toLowerCase s nowMs = []" by simp_all
  from sentinel_when_no_match [OF assms this]
  show "layerFilter (applyFilter toLowerCase s nowMs rendered) PoiPoints = Some noResultFilter"
    and "layerFilter (applyFilter toLowerCase s nowMs rendered) PoiHeat = Some noResultFilter"
    and "layerFilter (applyFilter toLowerCase s nowMs rendered) PoiText = Some noResultFilter"
    and "layerFilter (applyFilter toLowerCase s nowMs rendered) PoiPseudo = layerFilter s PoiPseudo"
    and "\<forall>f. \<not> evalFilter noResultFilter f"
    by simp_all
next
  assume "list_all (\<lambda>f. fidOf f \<noteq> None) (poiData s)"
  from match_list_never_empty [OF assms this]
  show "layerFilter (applyFilter toLowerCase s nowMs rendered) PoiPoints \<noteq> Some (MatchFid [])"
    and "layerFilter (applyFilter toLowerCase s nowMs rendered) PoiHeat \<noteq> Some (MatchFid [])"
    and "layerFilter (applyFilter toLowerCase s nowMs rendered) PoiText \<noteq> Some (MatchFid [])"
    by simp_all
qed

theorem no_match_sets_sentinel_witness:
  "mapExists (loadedState\<lparr>filterKeyword := js ''zzz''\<rparr>)
   \<and> isDataLoaded (loadedState\<lparr>filterKeyword := js ''zzz''\<rparr>)
   \<and> criterionActive (loadedState\<lparr>filterKeyword := js ''zzz''\<rparr>)
   \<and> matchingFeatures asciiLowerCase (loadedState\<lparr>filterKeyword := js ''zzz''\<rparr>) 0 = []
   \<and> list_all (\<lambda>f. fidOf f \<noteq> None) (poiData (loadedState\<lparr>filterKeyword := js ''zzz''\<rparr>))
   \<and> layerFilter (keywordInput asciiLowerCase loadedState (js ''zzz'') 0 []) PoiPoints = Some noResultFilter
   \<and> layerFilter (keywordInput asciiLowerCase loadedState (js ''zzz'') 0 []) PoiHeat = Some noResultFilter
   \<and> layerFilter (keywordInput asciiLowerCase loadedState (js ''zzz'') 0 []) PoiText = Some noResultFilter"
proof -
  have h: "mapExists (loadedState\<lparr>filterKeyword := js ''zzz''\<rparr>)"
    "isDataLoaded (loadedState\<lparr>filterKeyword := js ''zzz''\<rparr>)"
    by (simp_all add: loadedState_eval)
  have f: "list_all (\<lambda>f. fidOf f \<noteq> None) (poiData (loadedState\<lparr>filterKeyword := js ''zzz''\<rparr>))"
    by (simp add: loadedState_eval fidOf_def cafeFeature_def barFeature_def cafeProps_def)
  from no_match_sets_sentinel [OF h, where toLowerCase = asciiLowerCase and nowMs = 0
      and rendered = "[]", THEN conjunct1] zzz_no_match [of 0] zzz_active
    h f
  show ?thesis by (simp add: keywordInput_def)
qed

section \<open>Clearing the filter\<close>

text \<open>
  The reset button, \<open>clearFilter\<close>, removes the three filters and sets the count shown to
  the size of the store.
\<close>

lemma clearFilter_resets:
  assumes "mapExists s" and "isDataLoaded s"
  shows "currentVisiblePOIs (clearFilter s) = length (poiData s)
       \<and> layerFilter (clearFilter s) PoiPoints = None
       \<and> layerFilter (clearFilter s) PoiHeat = None
       \<and> layerFilter (clearFilter s) PoiText = None
       \<and> layerFilter (clearFilter s) PoiPseudo = layerFilter s PoiPseudo
       \<and> \<not> criterionActive (clearFilter s)"
  using assms by (simp add: clearFilter_def setFilters_def criterionActive_def trim_def)

text \<open>
  Claim C7 says that once every field of the filter is cleared and the filter applied
  again, no layer holds a filter and the count shown is the size of the store. When the
  fields are cleared by hand, \<open>applyFilter\<close> takes the branch of \<open>clearAllFilters\<close>, which
  removes the filters and leaves \<open>currentVisiblePOIs\<close> as it was: after \<open>cafe\<close> is typed
  and then deleted, the store holds two features, no layer holds a filter, and the count
  shown is still 1.
\<close>

theorem cleared_fields_stale_count:
  "filterKeyword (keywordInput asciiLowerCase afterCafe [] 0 []) = []
   \<and> selectedPeriod (keywordInput asciiLowerCase afterCafe [] 0 []) = 0
   \<and> selectedCategories (keywordInput asciiLowerCase afterCafe [] 0 []) = []
   \<and> layerFilter (keywordInput asciiLowerCase afterCafe [] 0 []) PoiPseudo = None
   \<and> layerFilter (keywordInput asciiLowerCase afterCafe [] 0 []) PoiPoints = None
   \<and> layerFilter (keywordInput asciiLowerCase afterCafe [] 0 []) PoiHeat = None
   \<and> layerFilter (keywordInput asciiLowerCase afterCafe [] 0 []) PoiText = None
   \<and> length (poiData (keywordInput asciiLowerCase afterCafe [] 0 [])) = 2
   \<and> currentVisiblePOIs (keywordInput asciiLowerCase afterCafe [] 0 []) = 1"
  by (simp add: keywordInput_def applyFilter_def afterCafe_eval criterionActive_def trim_def
      updateCenterPOIs_def clearAllFilters_def setFilters_def)

section \<open>The display cap of the list\<close>

text \<open>
  Claim C8. With the map present and the data loaded, \<open>updateCenterPOIs\<close> shows the
  first 99 features of the answer to the viewport query, reports the full size of that
  answer as \<open>totalPOICount\<close>, which may exceed 99, and changes neither the layer filters
  nor the set of matching features nor the count of visible features.
\<close>

theorem display_cap_only_bounds_list:
  assumes "mapExists s" and "isDataLoaded s"
  shows "centerPOIs (updateCenterPOIs s rendered) = take 99 rendered
       \<and> length (centerPOIs (updateCenterPOIs s rendered)) = min 99 (length rendered)
       \<and> totalPOICount (updateCenterPOIs s rendered) = length rendered
       \<and> layerFilter (updateCenterPOIs s rendered) = layerFilter s
       \<and> matchingFeatures toLowerCase (updateCenterPOIs s rendered) nowMs = matchingFeatures toLowerCase s nowMs
       \<and> currentVisiblePOIs (updateCenterPOIs s rendered) = currentVisiblePOIs s"
  using assms by (simp add: updateCenterPOIs_def matchingFeatures_def min_def)

theorem display_cap_only_bounds_list_witness:
  "mapExists loadedState \<and> isDataLoaded loadedState
   \<and> length (centerPOIs (updateCenterPOIs loadedState (replicate 120 cafeFeature))) = 99
   \<and> totalPOICount (updateCenterPOIs loadedState (replicate 120 cafeFeature)) = 120
   \<and> layerFilter (updateCenterPOIs loadedState (replicate 120 cafeFeature)) = (\<lambda>l. None)"
  using display_cap_only_bounds_list [where s = loadedState
      and rendered = "replicate 120 cafeFeature" and toLowerCase = asciiLowerCase and nowMs = 0]
  by (simp add: loadedState_eval)

section \<open>Whitespace around the keyword\<close>

lemma dropWhile_all: "list_all P xs \<Longrightarrow> dropWhile P (xs @ ys) = dropWhile P ys"
  by (induction xs) auto

lemma dropWhile_trailing:
  assumes "list_all P after"
  shows "dropWhile P (rev (dropWhile P (k @ after))) = dropWhile P (rev (dropWhile P k))"
proof (cases "list_all P k")
  case True
  with assms have "dropWhile P (k @ after) = []" "dropWhile P k = []"
    by (auto simp: list_all_iff dropWhile_eq_Nil_conv)
  then show ?thesis by (simp only:)
next
  case False
  then obtain x where "x \<in> set k" "\<not> P x" by (auto simp: list_all_iff)
  then have "dropWhile P (k @ after) = dropWhile P k @ after"
    by (simp add: dropWhile_append1)
  moreover from assms have "list_all P (rev after)" by (simp add: list_all_iff)
  ultimately show ?thesis by (simp add: dropWhile_all)
qed

lemma trim_Nil: "trim [] = []"
  by (simp add: trim_def)

lemma trim_padding:
  assumes "list_all isWhiteSpace before" and "list_all isWhiteSpace after"
  shows "trim (before @ k @ after) = trim k"
  using assms by (simp add: trim_def dropWhile_all dropWhile_trailing)

lemma effectiveKeyword_trim:
  "lowering toLowerCase \<Longrightarrow> effectiveKeyword toLowerCase k = toLowerCase (trim k)"
  by (simp add: effectiveKeyword_def lowering_trim)

lemma featureMatches_trim:
  assumes "lowering toLowerCase" and "trim k1 = trim k2"
  shows "featureMatches toLowerCase k1 period cats nowMs =
         featureMatches toLowerCase k2 period cats nowMs"
  using assms(2)
  by (auto simp: featureMatches_def effectiveKeyword_trim [OF assms(1)] fun_eq_iff
      split: option.splits)

lemma matchingFeatures_trim:
  assumes "lowering toLowerCase" and "trim k1 = trim k2"
  shows "matchingFeatures toLowerCase (s\<lparr>filterKeyword := k1\<rparr>) nowMs =
         matchingFeatures toLowerCase (s\<lparr>filterKeyword := k2\<rparr>) nowMs"
  by (simp add: matchingFeatures_def featureMatches_trim [OF assms])

lemma applyFilter_trim:
  assumes "lowering toLowerCase" and "trim k1 = trim k2"
  shows "applyFilter toLowerCase (s\<lparr>filterKeyword := k1\<rparr>) nowMs rendered =
         (applyFilter toLowerCase (s\<lparr>filterKeyword := k2\<rparr>) nowMs rendered)\<lparr>filterKeyword := k1\<rparr>"
proof (cases "mapExists s \<and> isDataLoaded s")
  case False
  then show ?thesis by (auto simp: applyFilter_def)
next
  case True
  have a: "criterionActive (s\<lparr>filterKeyword := k1\<rparr>) = criterionActive (s\<lparr>filterKeyword := k2\<rparr>)"
    using assms(2) by (simp add: criterionActive_def)
  have m: "matchingFeatures toLowerCase (s\<lparr>filterKeyword := k1\<rparr>) nowMs =
           matchingFeatures toLowerCase (s\<lparr>filterKeyword := k2\<rparr>) nowMs"
    using assms by (rule matchingFeatures_trim)
  show ?thesis
  proof (cases "criterionActive (s\<lparr>filterKeyword := k2\<rparr>)")
    case active: True
    with True a show ?thesis
      by (simp add: applyFilter_def applyCombinedFilter_def m Let_def setFilters_def
          updateCenterPOIs_def)
  next
    case inactive: False
    with True a show ?thesis
      by (simp add: applyFilter_def clearAllFilters_def setFilters_def updateCenterPOIs_def)
  qed
qed

text \<open>
  Claim C10. Whatever lowering the runtime applies, provided it keeps the empty string
  empty and commutes with \<open>trim\<close>: whitespace before and after the keyword changes
  neither the matching features nor whether a criterion is active, so typing the padded
  keyword leaves the
  component as typing the bare keyword does, but for the text of the box; and with the map
  present, the data loaded, no period and no category selected, a keyword of whitespace
  only counts as no criterion: the three filters are removed and no match is computed, the
  count shown staying as it was.
\<close>

theorem keyword_whitespace_ignored:
  assumes "lowering toLowerCase"
    and "list_all isWhiteSpace before" and "list_all isWhiteSpace after"
  shows "matchingFeatures toLowerCase (s\<lparr>filterKeyword := before @ k @ after\<rparr>) nowMs =
           matchingFeatures toLowerCase (s\<lparr>filterKeyword := k\<rparr>) nowMs
       \<and> criterionActive (s\<lparr>filterKeyword := before @ k @ after\<rparr>) =
           criterionActive (s\<lparr>filterKeyword := k\<rparr>)
       \<and> keywordInput toLowerCase s (before @ k @ after) nowMs rendered =
           (keywordInput toLowerCase s k nowMs rendered)\<lparr>filterKeyword := before @ k @ after\<rparr>
       \<and> (mapExists s \<and> isDataLoaded s \<and> selectedPeriod s = 0 \<and> selectedCategories s = []
            \<longrightarrow>
           \<not> criterionActive (s\<lparr>filterKeyword := before @ after\<rparr>)
           \<and> layerFilter (keywordInput toLowerCase s (before @ after) nowMs rendered) PoiPoints = None
           \<and> layerFilter (keywordInput toLowerCase s (before @ after) nowMs rendered) PoiHeat = None
           \<and> layerFilter (keywordInput toLowerCase s (before @ after) nowMs rendered) PoiText = None
           \<and> currentVisiblePOIs (keywordInput toLowerCase s (before @ after) nowMs rendered) =
               currentVisiblePOIs s)"
proof -
  have t: "trim (before @ k @ after) = trim k" using assms(2,3) by (rule trim_padding)
  have t0: "trim (before @ after) = []"
    using trim_padding [OF assms(2,3), of "[]"] by (simp add: trim_Nil)
  have 1: "matchingFeatures toLowerCase (s\<lparr>filterKeyword := before @ k @ after\<rparr>) nowMs =
           matchingFeatures toLowerCase (s\<lparr>filterKeyword := k\<rparr>) nowMs"
    using assms(1) t by (rule matchingFeatures_trim)
  have 2: "criterionActive (s\<lparr>filterKeyword := before @ k @ after\<rparr>) =
           criterionActive (s\<lparr>filterKeyword := k\<rparr>)"
    by (simp add: criterionActive_def t)
  have 3: "keywordInput toLowerCase s (before @ k @ after) nowMs rendered =
           (keywordInput toLowerCase s k nowMs rendered)\<lparr>filterKeyword := before @ k @ after\<rparr>"
    unfolding keywordInput_def using assms(1) t by (rule applyFilter_trim)
  have 4: "mapExists s \<and> isDataLoaded s \<and> selectedPeriod s = 0 \<and> selectedCategories s = []
            \<longrightarrow>
           \<not> criterionActive (s\<lparr>filterKeyword := before @ after\<rparr>)
           \<and> layerFilter (keywordInput toLowerCase s (before @ after) nowMs rendered) PoiPoints = None
           \<and> layerFilter (keywordInput toLowerCase s (before @ after) nowMs rendered) PoiHeat = None
           \<and> layerFilter (keywordInput toLowerCase s (before @ after) nowMs rendered) PoiText = None
           \<and> currentVisiblePOIs (keywordInput toLowerCase s (before @ after) nowMs rendered) =
               currentVisiblePOIs s"
    by (simp add: keywordInput_def applyFilter_def criterionActive_def t0 updateCenterPOIs_def
        clearAllFilters_def setFilters_def)
  show ?thesis by (rule conjI [OF 1 conjI [OF 2 conjI [OF 3 4]]])
qed

theorem keyword_whitespace_ignored_witness:
  "lowering asciiLowerCase
   \<and> list_all isWhiteSpace [32, 12288] \<and> list_all isWhiteSpace [9]
   \<and> matchingFeatures asciiLowerCase (loadedState\<lparr>filterKeyword := [32, 12288] @ js ''cafe'' @ [9]\<rparr>) 0 =
       [cafeFeature]
   \<and> layerFilter (keywordInput asciiLowerCase afterCafe ([32, 12288] @ [9]) 0 []) PoiPoints = None
   \<and> currentVisiblePOIs (keywordInput asciiLowerCase afterCafe ([32, 12288] @ [9]) 0 []) = 1"
proof -
  have h1: "list_all isWhiteSpace [32, 12288]" and h2: "list_all isWhiteSpace [9]"
    by (simp_all add: isWhiteSpace_def)
  note a = keyword_whitespace_ignored [OF lowering_asciiLowerCase h1 h2,
      where s = loadedState and k = "js ''cafe''" and nowMs = 0 and rendered = "[]"]
  note b = keyword_whitespace_ignored [OF lowering_asciiLowerCase h1 h2,
      where s = afterCafe and k = "[]" and nowMs = 0 and rendered = "[]"]
  have m: "matchingFeatures asciiLowerCase (loadedState\<lparr>filterKeyword := [32, 12288] @ js ''cafe'' @ [9]\<rparr>) 0 =
       [cafeFeature]"
    using a [THEN conjunct1] cafe_match [of 0] by (simp only:)
  have p: "mapExists afterCafe \<and> isDataLoaded afterCafe \<and> selectedPeriod afterCafe = 0
     \<and> selectedCategories afterCafe = []"
    by (simp add: afterCafe_eval)
  from b [THEN conjunct2, THEN conjunct2, THEN conjunct2, THEN mp, OF p] h1 h2 m
    lowering_asciiLowerCase
  show ?thesis by (simp only: afterCafe_eval simp_thms)
qed

section \<open>The decode loop\<close>

lemma decodeStep_fields:
  "poiData (decodeStep n s f) = poiData s @ [f]"
  "mapExists (decodeStep n s f) = mapExists s"
  "sourceExists (decodeStep n s f) = sourceExists s"
  "isDataLoaded (decodeStep n s f) = isDataLoaded s"
  "layerFilter (decodeStep n s f) = layerFilter s"
  "currentVisiblePOIs (decodeStep n s f) = currentVisiblePOIs s"
  by (simp_all add: decodeStep_def updateMapData_def Let_def)

lemma decodeStep_setDataCalls:
  "setDataCalls (decodeStep n s f) =
     setDataCalls s @
     (if flushDue n (Suc (length (poiData s))) \<and> mapExists s \<and> sourceExists s
      then [poiData s @ [f]] else [])"
  by (simp add: decodeStep_def updateMapData_def Let_def)

lemma decodeLoop_fields:
  "poiData (decodeLoop n s fs) = poiData s @ fs"
  "mapExists (decodeLoop n s fs) = mapExists s"
  "sourceExists (decodeLoop n s fs) = sourceExists s"
  "isDataLoaded (decodeLoop n s fs) = isDataLoaded s"
  "layerFilter (decodeLoop n s fs) = layerFilter s"
  "currentVisiblePOIs (decodeLoop n s fs) = currentVisiblePOIs s"
  by (induction fs arbitrary: s; simp add: decodeStep_fields)+

lemma decodeLoop_flushes:
  assumes "mapExists s" and "sourceExists s"
  shows "map length (setDataCalls (decodeLoop n s fs)) =
         map length (setDataCalls s) @
         filter (flushDue n) [Suc (length (poiData s))..<Suc (length (poiData s) + length fs)]"
  using assms
proof (induction fs arbitrary: s)
  case Nil
  then show ?case by simp
next
  case (Cons f fs)
  have m: "mapExists (decodeStep n s f)" and e: "sourceExists (decodeStep n s f)"
    using Cons.prems by (simp_all add: decodeStep_fields)
  have u: "[Suc (length (poiData s))..<Suc (length (poiData s) + length (f # fs))] =
           Suc (length (poiData s)) #
           [Suc (Suc (length (poiData s)))..<Suc (length (poiData s) + length (f # fs))]"
    by (rule upt_conv_Cons) simp
  show ?case
    using Cons.prems
    by (simp only: decodeLoop.simps Cons.IH [OF m e] u)
      (simp add: decodeStep_fields decodeStep_setDataCalls)
qed

lemma flushDue_positive: "0 < c \<Longrightarrow> flushDue n c \<longleftrightarrow> c mod 256 = 0 \<or> c = n"
  by (auto simp: flushDue_def)

lemma upt_split:
  "i \<le> j \<Longrightarrow> j < k \<Longrightarrow> j' = Suc j \<Longrightarrow> [i..<k] = [i..<j] @ j # [j'..<k]"
  using upt_add_eq_append [of i j "k - j"] upt_conv_Cons [of j k] by simp

lemma filter_upt_none:
  "(\<And>c. a \<le> c \<Longrightarrow> c < b \<Longrightarrow> \<not> P c) \<Longrightarrow> filter P [a..<b] = []"
  by (simp add: filter_empty_conv)

lemma no_multiple_between:
  fixes c :: nat
  assumes "256 * q < c" and "c < 256 * Suc q"
  shows "c mod 256 \<noteq> 0"
proof
  assume "c mod 256 = 0"
  then obtain k where k: "c = 256 * k" by (auto simp: mod_eq_0_iff_dvd)
  with assms have "q < k" "k < Suc q" by simp_all
  then show False by simp
qed

lemma flush_counts_1000:
  "filter (\<lambda>c. c mod 256 = 0 \<or> c = 1000) [1..<Suc 1000] = [256, 512, 768, 1000::nat]"
proof -
  let ?P = "\<lambda>c::nat. c mod 256 = 0 \<or> c = 1000"
  have s1: "[1..<Suc 1000] = [1..<256] @ 256 # [257..<Suc 1000]"
    by (rule upt_split) simp_all
  have s2: "[257..<Suc 1000] = [257..<512] @ 512 # [513..<Suc 1000]"
    by (rule upt_split) simp_all
  have s3: "[513..<Suc 1000] = [513..<768] @ 768 # [769..<Suc 1000]"
    by (rule upt_split) simp_all
  have s4: "[769..<Suc 1000] = [769..<1000] @ [1000]"
    by (rule upt_Suc_append) simp
  have a: "filter ?P [1..<256] = []"
    by (rule filter_upt_none) (use no_multiple_between [of 0] in simp)
  have b: "filter ?P [257..<512] = []"
    by (rule filter_upt_none) (use no_multiple_between [of 1] in simp)
  have c: "filter ?P [513..<768] = []"
    by (rule filter_upt_none) (use no_multiple_between [of 2] in simp)
  have d: "filter ?P [769..<1000] = []"
    by (rule filter_upt_none) (use no_multiple_between [of 3] in simp)
  have "filter ?P [1..<Suc 1000] =
        (if ?P 256 then [256] else []) @ (if ?P 512 then [512] else []) @
        (if ?P 768 then [768] else []) @ (if ?P 1000 then [1000] else [])"
    unfolding s1 s2 s3 s4 filter_append filter.simps a b c d
    by (simp only: append_Nil split: if_split) simp
  then show ?thesis by simp
qed

text \<open>
  Claim C4. In a decode that starts from the empty store, with the map and its source
  present, \<open>updateMapData\<close> hands the store to the source after record number \<open>c\<close> exactly
  when \<open>c mod 256 = 0\<close> or \<open>c = n\<close>, \<open>n\<close> being the declared count: the sizes of the
  collections handed over are those \<open>c\<close>, in order. For \<open>n = 1000\<close> and 1000 records they
  are 256, 512, 768 and 1000.
\<close>

theorem flush_cadence:
  assumes "mapExists s" and "sourceExists s" and "poiData s = []" and "setDataCalls s = []"
  shows "map length (setDataCalls (decodeLoop n s fs)) =
           filter (\<lambda>c. c mod 256 = 0 \<or> c = n) [1..<Suc (length fs)]
       \<and> (n = 1000 \<and> length fs = 1000 \<longrightarrow>
            map length (setDataCalls (decodeLoop n s fs)) = [256, 512, 768, 1000])"
proof -
  have "filter (flushDue n) [1..<Suc (length fs)] =
        filter (\<lambda>c. c mod 256 = 0 \<or> c = n) [1..<Suc (length fs)]"
    by (rule filter_cong) (auto simp: flushDue_def)
  with decodeLoop_flushes [OF assms(1,2), of n fs] assms(3,4)
  have 1: "map length (setDataCalls (decodeLoop n s fs)) =
           filter (\<lambda>c. c mod 256 = 0 \<or> c = n) [1..<Suc (length fs)]"
    by simp
  show ?thesis
  proof (intro conjI impI)
    assume "n = 1000 \<and> length fs = 1000"
    then have "n = 1000" and "length fs = 1000" by simp_all
    with 1 flush_counts_1000
    show "map length (setDataCalls (decodeLoop n s fs)) = [256, 512, 768, 1000]"
      by (simp only:)
  qed (rule 1)
qed

theorem flush_cadence_witness:
  "mapExists (mapLoaded initialState) \<and> sourceExists (mapLoaded initialState)
   \<and> poiData (mapLoaded initialState) = [] \<and> setDataCalls (mapLoaded initialState) = []
   \<and> map length (setDataCalls
        (decodeLoop 1000 (mapLoaded initialState) (replicate 1000 cafeFeature))) =
      [256, 512, 768, 1000]"
proof -
  have h: "mapExists (mapLoaded initialState)" "sourceExists (mapLoaded initialState)"
    "poiData (mapLoaded initialState) = []" "setDataCalls (mapLoaded initialState) = []"
    by (simp_all add: mapLoaded_def initialState_def)
  from flush_cadence [OF h, of 1000 "replicate 1000 cafeFeature", THEN conjunct2] h
  show ?thesis by simp
qed

section \<open>Failure of the load\<close>

lemma decodeStep_grows:
  "prefix (setDataCalls s) (setDataCalls (decodeStep n s f))"
  "prefix (dispatched s) (dispatched (decodeStep n s f))"
  by (simp_all add: decodeStep_def updateMapData_def Let_def)

lemma decodeLoop_grows:
  "prefix (setDataCalls s) (setDataCalls (decodeLoop n s fs))"
  "prefix (dispatched s) (dispatched (decodeLoop n s fs))"
proof (induction fs arbitrary: s)
  case Nil
  { case 1 show ?case by simp }
  { case 2 show ?case by simp }
next
  case (Cons f fs)
  { case 1 show ?case
      using decodeStep_grows(1) [of s n f] Cons.IH(1) [of "decodeStep n s f"]
      by (auto intro: prefix_order.trans) }
  { case 2 show ?case
      using decodeStep_grows(2) [of s n f] Cons.IH(2) [of "decodeStep n s f"]
      by (auto intro: prefix_order.trans) }
qed

lemma decodeLoop_snapshots:
  "list_all (\<lambda>snapshot. prefix snapshot (poiData s @ fs))
     (drop (length (setDataCalls s)) (setDataCalls (decodeLoop n s fs)))"
proof (induction fs arbitrary: s)
  case Nil
  then show ?case by simp
next
  case (Cons f fs)
  let ?s1 = "decodeStep n s f"
  from Cons.IH [of ?s1]
  have ih: "list_all (\<lambda>snapshot. prefix snapshot (poiData s @ f # fs))
     (drop (length (setDataCalls ?s1)) (setDataCalls (decodeLoop n ?s1 fs)))"
    by (simp add: decodeStep_fields)
  from decodeLoop_grows(1) [of ?s1 n fs] obtain more
    where more: "setDataCalls (decodeLoop n ?s1 fs) = setDataCalls ?s1 @ more"
    by (auto simp: prefix_def)
  with ih have "list_all (\<lambda>snapshot. prefix snapshot (poiData s @ f # fs)) more" by simp
  then show ?case
    by (simp add: more decodeStep_setDataCalls)
qed

lemma decodeLoop_setDataCalls:
  "setDataCalls (decodeLoop n s fs) =
     setDataCalls s @
     (if mapExists s \<and> sourceExists s
      then map (\<lambda>c. take c (poiData s @ fs))
             (filter (flushDue n)
                [Suc (length (poiData s))..<Suc (length (poiData s) + length fs)])
      else [])"
proof (induction fs arbitrary: s)
  case Nil
  then show ?case by simp
next
  case (Cons f fs)
  let ?L = "length (poiData s)"
  have u: "[Suc ?L..<Suc (?L + length (f # fs))] =
           Suc ?L # [Suc (Suc ?L)..<Suc (?L + length (f # fs))]"
    by (rule upt_conv_Cons) simp
  have t: "map (\<lambda>c. take c (poiData s @ f # fs))
             (filter (flushDue n) [Suc (Suc ?L)..<Suc (?L + length (f # fs))]) =
           map (\<lambda>c. take c ((poiData s @ [f]) @ fs))
             (filter (flushDue n) [Suc (Suc ?L)..<Suc (?L + length (f # fs))])"
    by simp
  show ?case
    unfolding decodeLoop.simps Cons.IH u
    by (simp add: decodeStep_fields decodeStep_setDataCalls)
qed

lemma loadFailed_fields:
  "isDataLoaded (loadFailed s e)"
  "poiData (loadFailed s e) = poiData s"
  "setDataCalls (loadFailed s e) = setDataCalls s"
  "layerFilter (loadFailed s e) = layerFilter s"
  "currentVisiblePOIs (loadFailed s e) = currentVisiblePOIs s"
  "last (dispatched (loadFailed s e)) = LoadingProgress 0 0 (Some e)"
  by (simp_all add: loadFailed_def)

text \<open>
  Claim C9, as stated, has the features already appended to the store rendered as they
  are. The \<open>catch\<close> block never calls \<open>updateMapData\<close>: when the decoder throws after two
  records of a stream that declares five, the store holds the two and nothing has been
  handed to the map.
\<close>

theorem failed_load_tail_not_rendered:
  "poiData (loadPOIData (mapLoaded initialState)
      (Response True 200 (Some (Stream (Some 5) [cafeFeature, barFeature] True)))) =
     [cafeFeature, barFeature]
   \<and> setDataCalls (loadPOIData (mapLoaded initialState)
      (Response True 200 (Some (Stream (Some 5) [cafeFeature, barFeature] True)))) = []"
  by (simp add: loadPOIData_def loadFailed_def mapLoaded_def initialState_def decodeStep_def
      flushDue_def updateMapData_def Let_def)

text \<open>
  Claim C9, amended. When the fetch is rejected, the status is not a success, the body is
  missing or the decoder throws, \<open>loadPOIData\<close> ends in its \<open>catch\<close> block and returns, with
  no second request: the load is marked as done, the last event sent to the parent carries
  the error, and the store keeps every record decoded before the failure. The map holds
  exactly what the loop handed to it, one copy of the store for each decoded count that is
  a multiple of 256 or equals the declared total: the \<open>catch\<close> block hands over nothing and
  withdraws nothing, so the records decoded after the last such count stay in the store
  without being rendered. The layer filters and the count shown are untouched.
\<close>

theorem load_failure_keeps_store:
  assumes "failureOf r = Some e"
  shows "isDataLoaded (loadPOIData s r)
       \<and> poiData (loadPOIData s r) = poiData s @ decodedRecords r
       \<and> last (dispatched (loadPOIData s r)) = LoadingProgress 0 0 (Some e)
       \<and> setDataCalls (loadPOIData s r) =
           setDataCalls s @
           (if mapExists s \<and> sourceExists s
            then map (\<lambda>c. take c (poiData (loadPOIData s r)))
                   (filter (flushDue (declaredCount r))
                      [Suc (length (poiData s))..<
                       Suc (length (poiData s) + length (decodedRecords r))])
            else [])
       \<and> layerFilter (loadPOIData s r) = layerFilter s
       \<and> currentVisiblePOIs (loadPOIData s r) = currentVisiblePOIs s"
proof (cases r)
  case Rejected
  with assms show ?thesis by (simp add: loadPOIData_def loadFailed_fields)
next
  case (Response ok status body)
  show ?thesis
  proof (cases "ok")
    case False
    have d: "decodedRecords r = []" using False Response by (cases body) auto
    from False Response assms show ?thesis
      by (simp add: loadPOIData_def loadFailed_fields d)
  next
    case True
    show ?thesis
    proof (cases body)
      case None
      with True Response assms show ?thesis by (simp add: loadPOIData_def loadFailed_fields)
    next
      case (Some st)
      obtain cnt recs throws where st: "st = Stream cnt recs throws" by (cases st)
      with Some True Response assms have thr: "throws" and e: "e = DecodeError"
        by (simp_all split: if_splits)
      define n where "n = (case cnt of None \<Rightarrow> 0 | Some k \<Rightarrow> k)"
      define s1 where "s1 = (if n > 0
          then s\<lparr>dispatched := dispatched s @ [LoadingProgress 0 n None]\<rparr> else s)"
      have eq: "loadPOIData s r = loadFailed (decodeLoop n s1 recs) DecodeError"
        using Some True Response st thr
        by (simp add: loadPOIData_def n_def s1_def Let_def)
      have s1: "poiData s1 = poiData s" "setDataCalls s1 = setDataCalls s"
        "layerFilter s1 = layerFilter s" "currentVisiblePOIs s1 = currentVisiblePOIs s"
        "mapExists s1 = mapExists s" "sourceExists s1 = sourceExists s"
        by (simp_all add: s1_def)
      have d: "decodedRecords r = recs" using Some True Response st by simp
      have c: "declaredCount r = n" using Some True Response st by (cases cnt) (simp_all add: n_def)
      show ?thesis
        by (simp add: eq e d c loadFailed_fields decodeLoop_fields decodeLoop_setDataCalls s1)
    qed
  qed
qed

lemma flush_counts_256: "filter (flushDue 300) [Suc 0..<257] = [256]"
proof -
  have n: "(257::nat) = Suc 256" by simp
  have "filter (flushDue 300) [Suc 0..<256] = []"
    by (rule filter_upt_none) (use no_multiple_between [of 0] in \<open>simp add: flushDue_def\<close>)
  moreover have "[Suc 0..<Suc 256] = [Suc 0..<256] @ [256]"
    by (rule upt_Suc_append) simp
  moreover have "flushDue 300 256" by (simp add: flushDue_def)
  ultimately show ?thesis unfolding n by (simp only: filter_append filter.simps append_Nil if_True)
qed

theorem load_failure_keeps_store_witness:
  "failureOf (Response True 200 (Some (Stream (Some 300) (replicate 256 cafeFeature) True))) =
     Some DecodeError
   \<and> isDataLoaded (loadPOIData (mapLoaded initialState)
        (Response True 200 (Some (Stream (Some 300) (replicate 256 cafeFeature) True))))
   \<and> poiData (loadPOIData (mapLoaded initialState)
        (Response True 200 (Some (Stream (Some 300) (replicate 256 cafeFeature) True)))) =
       replicate 256 cafeFeature
   \<and> last (dispatched (loadPOIData (mapLoaded initialState)
        (Response True 200 (Some (Stream (Some 300) (replicate 256 cafeFeature) True))))) =
       LoadingProgress 0 0 (Some DecodeError)
   \<and> setDataCalls (loadPOIData (mapLoaded initialState)
        (Response True 200 (Some (Stream (Some 300) (replicate 256 cafeFeature) True)))) =
       [replicate 256 cafeFeature]"
proof -
  let ?r = "Response True 200 (Some (Stream (Some 300) (replicate 256 cafeFeature) True))"
  have h: "failureOf ?r = Some DecodeError" by simp
  have i: "poiData (mapLoaded initialState) = []" "setDataCalls (mapLoaded initialState) = []"
    "mapExists (mapLoaded initialState)" "sourceExists (mapLoaded initialState)"
    by (simp_all add: mapLoaded_def initialState_def)
  note t = load_failure_keeps_store [OF h, of "mapLoaded initialState"]
  from t have p: "poiData (loadPOIData (mapLoaded initialState) ?r) = replicate 256 cafeFeature"
    by (simp add: i)
  from t have c: "setDataCalls (loadPOIData (mapLoaded initialState) ?r) =
      [replicate 256 cafeFeature]"
    unfolding p by (simp add: i flush_counts_256)
  from t have d: "isDataLoaded (loadPOIData (mapLoaded initialState) ?r)"
    and l: "last (dispatched (loadPOIData (mapLoaded initialState) ?r)) =
      LoadingProgress 0 0 (Some DecodeError)"
    by (rule conjunct1, simp)
  from h d p l c show ?thesis by (intro conjI)
qed

section \<open>Progress of the load\<close>

lemma percent_0: "percent 0 n = 0"
  by (simp add: percent_def roundDouble_def)

lemma decodeStep_progress:
  "loadingProgress (decodeStep n s f) =
     (if 0 < n then floorPercent (Suc (length (poiData s))) n else loadingProgress s)"
  by (simp add: decodeStep_def updateMapData_def Let_def)

lemma decodeLoop_progress:
  assumes "0 < n" and "fs \<noteq> []"
  shows "loadingProgress (decodeLoop n s fs) = Finite (percent (length (poiData s) + length fs) n)"
  using assms(2)
proof (induction fs arbitrary: s)
  case Nil
  then show ?case by simp
next
  case (Cons f fs)
  show ?case
  proof (cases "fs = []")
    case True
    with assms(1) show ?thesis by (simp add: decodeStep_progress floorPercent_def)
  next
    case False
    from Cons.IH [OF False, of "decodeStep n s f"] show ?thesis
      by (simp add: decodeStep_fields)
  qed
qed

lemma decodeLoop_progress_from_start:
  assumes "0 < n" and "poiData s = []" and "loadingProgress s = Finite 0"
  shows "loadingProgress (decodeLoop n s fs) = Finite (percent (length fs) n)"
proof (cases "fs = []")
  case True
  with assms show ?thesis by (simp add: percent_0)
next
  case False
  from decodeLoop_progress [OF assms(1) False, of s] assms(2) show ?thesis by simp
qed

text \<open>
  Claim C6. In a decode that starts from the empty store with progress 0, declares a count
  \<open>n\<close> with \<open>0 < n \<le> 2^53\<close> and yields at most \<open>n\<close> records, \<open>loadingProgress\<close> never
  decreases as records are appended, and it is 100 exactly when the store holds \<open>n\<close>
  features.
\<close>

theorem progress_monotone:
  assumes "0 < n" and "n \<le> 2 ^ 53" and "poiData s = []" and "loadingProgress s = Finite 0"
    and "length fs \<le> n"
  shows "(\<forall>j k. j \<le> k \<and> k \<le> length fs \<longrightarrow>
            (\<exists>p q. loadingProgress (decodeLoop n s (take j fs)) = Finite p
                 \<and> loadingProgress (decodeLoop n s (take k fs)) = Finite q \<and> p \<le> q))
       \<and> (loadingProgress (decodeLoop n s fs) = Finite 100 \<longleftrightarrow>
            length (poiData (decodeLoop n s fs)) = n)"
proof (intro conjI allI impI)
  fix j k
  assume jk: "j \<le> k \<and> k \<le> length fs"
  then have "length (take j fs) \<le> length (take k fs)" by simp
  then have "percent (length (take j fs)) n \<le> percent (length (take k fs)) n"
    by (rule percent_mono)
  then show "\<exists>p q. loadingProgress (decodeLoop n s (take j fs)) = Finite p
                 \<and> loadingProgress (decodeLoop n s (take k fs)) = Finite q \<and> p \<le> q"
    by (simp only: decodeLoop_progress_from_start [OF assms(1,3,4)]) blast
next
  have l: "length (poiData (decodeLoop n s fs)) = length fs"
    by (simp add: decodeLoop_fields assms(3))
  show "loadingProgress (decodeLoop n s fs) = Finite 100 \<longleftrightarrow>
        length (poiData (decodeLoop n s fs)) = n"
  proof (cases "length fs = n")
    case True
    with assms(1) show ?thesis
      by (simp add: l decodeLoop_progress_from_start [OF assms(1,3,4)] percent_full)
  next
    case False
    with assms(5) have "length fs < n" by simp
    from percent_below [OF this assms(2)] False show ?thesis
      by (simp add: l decodeLoop_progress_from_start [OF assms(1,3,4)])
  qed
qed

theorem progress_monotone_witness:
  "(0::nat) < 2 \<and> (2::nat) \<le> 2 ^ 53 \<and> poiData (mapLoaded initialState) = []
   \<and> loadingProgress (mapLoaded initialState) = Finite 0
   \<and> length [cafeFeature, barFeature] \<le> 2
   \<and> loadingProgress (decodeLoop 2 (mapLoaded initialState) [cafeFeature, barFeature]) =
       Finite 100
   \<and> (\<exists>p q. loadingProgress (decodeLoop 2 (mapLoaded initialState) [cafeFeature]) = Finite p
         \<and> loadingProgress (decodeLoop 2 (mapLoaded initialState) [cafeFeature, barFeature])
             = Finite q \<and> p \<le> q)"
proof -
  have h: "(0::nat) < 2" "(2::nat) \<le> 2 ^ 53" "poiData (mapLoaded initialState) = []"
    "loadingProgress (mapLoaded initialState) = Finite 0"
    "length [cafeFeature, barFeature] \<le> 2"
    by (simp_all add: mapLoaded_def initialState_def)
  note t = progress_monotone [OF h]
  have l: "length (poiData (decodeLoop 2 (mapLoaded initialState) [cafeFeature, barFeature])) = 2"
    by (simp add: decodeLoop_fields h(3) del: decodeLoop.simps)
  from t [THEN conjunct2] l
  have 1: "loadingProgress (decodeLoop 2 (mapLoaded initialState) [cafeFeature, barFeature]) =
       Finite 100" by (simp only:)
  from t [THEN conjunct1, THEN spec, THEN spec, of 1 2]
  have 2: "\<exists>p q. loadingProgress (decodeLoop 2 (mapLoaded initialState) [cafeFeature]) = Finite p
         \<and> loadingProgress (decodeLoop 2 (mapLoaded initialState) [cafeFeature, barFeature])
             = Finite q \<and> p \<le> q" by (simp del: decodeLoop.simps)
  from h 1 2 show ?thesis by blast
qed

text \<open>
  Claim C5, as stated, has the progress clamped to the range from 0 to 100. The loop has no
  clamp: when a stream that declares one feature yields two, the progress after the second
  is 200.
\<close>

theorem progress_unclamped:
  "loadingProgress (decodeLoop 1 (mapLoaded initialState) [cafeFeature, barFeature]) =
     Finite 200"
proof -
  have p: "percent 2 1 = 200" by (simp add: percent_def roundDouble_2 roundDouble_200)
  have e: "poiData (mapLoaded initialState) = []" by (simp add: mapLoaded_def initialState_def)
  have "loadingProgress (decodeLoop 1 (mapLoaded initialState) [cafeFeature, barFeature]) =
        Finite (percent (length (poiData (mapLoaded initialState))
          + length [cafeFeature, barFeature]) 1)"
    by (rule decodeLoop_progress) simp_all
  also have "length (poiData (mapLoaded initialState)) + length [cafeFeature, barFeature] = 2"
    by (simp add: e)
  also note p
  finally show ?thesis .
qed

text \<open>
  The percentage is computed on doubles, and the floor of the rounded product can be one
  less than the floor of the exact percentage: after 29 records of 100 the progress is 28.
\<close>

lemma progress_29_of_100: "floorPercent 29 100 = Finite 28 \<and> \<lfloor>(29 :: rat) / 100 * 100\<rfloor> = 29"
  by (simp add: floorPercent_def percent_29_100)

text \<open>
  The loading screen computes its own percentage from the events, with \<open>Math.round\<close>, and
  shows 0 when the count is zero; the older copy of the loop divides without a guard.
\<close>

lemma screenProgress_zero_total: "screenProgress loadedCount 0 = 0"
  by (simp add: screenProgress_def)

lemma floorPercent_zero_total: "floorPercent len 0 = NotFinite"
  by (simp add: floorPercent_def)

lemma percent_twice: "0 < n \<Longrightarrow> percent (2 * n) n = 200"
  by (simp add: percent_def roundDouble_2 roundDouble_200)

lemma screenProgress_near_percent:
  assumes "0 < totalCount"
  shows "percent loadedCount totalCount \<le> screenProgress loadedCount totalCount"
    and "screenProgress loadedCount totalCount \<le> percent loadedCount totalCount + 1"
proof -
  let ?x = "roundDouble (roundDouble (of_nat loadedCount / of_nat totalCount) * 100)"
  have "\<lfloor>?x\<rfloor> \<le> \<lfloor>?x + 1 / 2\<rfloor>" by (rule floor_mono) simp
  moreover have "\<lfloor>?x + 1 / 2\<rfloor> \<le> \<lfloor>?x + 1\<rfloor>" by (rule floor_mono) simp
  ultimately show "percent loadedCount totalCount \<le> screenProgress loadedCount totalCount"
    and "screenProgress loadedCount totalCount \<le> percent loadedCount totalCount + 1"
    using assms by (simp_all add: percent_def screenProgress_def)
qed


text \<open>
  Claim C5, amended. After a record is decoded with a declared count \<open>n > 0\<close>,
  \<open>loadingProgress\<close> is \<open>Math.floor((c / n) * 100)\<close> as computed on doubles, \<open>c\<close> being the
  number of stored features; no clamp is applied. While \<open>c \<le> n\<close> the value lies between 0
  and 100, and for \<open>n \<le> 2^32\<close> it is the floor of the exact percentage or one less. From
  \<open>c = n\<close> on the value is at least 100, and it is 200 at \<open>c = 2n\<close>. When the count is
  zero or unknown the step evaluates no division and leaves \<open>loadingProgress\<close> as it was,
  and the value never becomes \<open>Infinity\<close> or \<open>NaN\<close>. The loading screen computes its own
  figure from the counts of the events: 0 when \<open>totalCount\<close> is 0, and otherwise
  \<open>Math.round\<close> of the same product, which is the floor or one more. The older copy of
  the loop assigns the same expression without the guard, and for a declared count of 0
  its value is not finite.
\<close>

theorem progress_step:
  "(0 < n \<longrightarrow>
      loadingProgress (decodeStep n s f) =
        Finite \<lfloor>roundDouble (roundDouble (of_nat (Suc (length (poiData s))) / of_nat n) * 100)\<rfloor>)
   \<and> (0 < n \<and> Suc (length (poiData s)) \<le> n \<longrightarrow>
        (\<exists>p. loadingProgress (decodeStep n s f) = Finite p \<and> 0 \<le> p \<and> p \<le> 100))
   \<and> (0 < n \<and> Suc (length (poiData s)) \<le> n \<and> n \<le> 2 ^ 32 \<longrightarrow>
        loadingProgress (decodeStep n s f) =
          Finite (int (100 * Suc (length (poiData s)) div n))
        \<or> loadingProgress (decodeStep n s f) =
          Finite (int (100 * Suc (length (poiData s)) div n) - 1))
   \<and> (0 < n \<and> n \<le> Suc (length (poiData s)) \<longrightarrow>
        (\<exists>p. loadingProgress (decodeStep n s f) = Finite p \<and> 100 \<le> p))
   \<and> (0 < n \<and> Suc (length (poiData s)) = 2 * n \<longrightarrow>
        loadingProgress (decodeStep n s f) = Finite 200)
   \<and> (n = 0 \<longrightarrow> loadingProgress (decodeStep n s f) = loadingProgress s)
   \<and> (loadingProgress s \<noteq> NotFinite \<longrightarrow> loadingProgress (decodeStep n s f) \<noteq> NotFinite)
   \<and> screenProgress loadedCount 0 = 0
   \<and> (0 < totalCount \<longrightarrow>
        screenProgress loadedCount totalCount =
          \<lfloor>roundDouble (roundDouble (of_nat loadedCount / of_nat totalCount) * 100) + 1 / 2\<rfloor>
        \<and> percent loadedCount totalCount \<le> screenProgress loadedCount totalCount
        \<and> screenProgress loadedCount totalCount \<le> percent loadedCount totalCount + 1)
   \<and> floorPercent len 0 = NotFinite"
proof (intro conjI impI)
  assume "0 < n"
  then show "loadingProgress (decodeStep n s f) =
        Finite \<lfloor>roundDouble (roundDouble (of_nat (Suc (length (poiData s))) / of_nat n) * 100)\<rfloor>"
    by (simp add: decodeStep_progress floorPercent_def percent_def)
next
  assume a: "0 < n \<and> Suc (length (poiData s)) \<le> n"
  then have "percent (Suc (length (poiData s))) n \<le> percent n n" by (intro percent_mono) simp
  with a have "percent (Suc (length (poiData s))) n \<le> 100" by (simp add: percent_full)
  with a percent_nonneg [of "Suc (length (poiData s))" n]
  show "\<exists>p. loadingProgress (decodeStep n s f) = Finite p \<and> 0 \<le> p \<and> p \<le> 100"
    by (simp add: decodeStep_progress floorPercent_def)
next
  assume a: "0 < n \<and> Suc (length (poiData s)) \<le> n \<and> n \<le> 2 ^ 32"
  then have "0 < n" "Suc (length (poiData s)) \<le> n" "n \<le> 2 ^ 32" by simp_all
  from percent_exact_or_one_less [OF this] \<open>0 < n\<close>
  show "loadingProgress (decodeStep n s f) =
          Finite (int (100 * Suc (length (poiData s)) div n))
        \<or> loadingProgress (decodeStep n s f) =
          Finite (int (100 * Suc (length (poiData s)) div n) - 1)"
    by (simp add: decodeStep_progress floorPercent_def)
next
  assume a: "0 < n \<and> n \<le> Suc (length (poiData s))"
  then have "percent n n \<le> percent (Suc (length (poiData s))) n" by (intro percent_mono) simp
  with a have "100 \<le> percent (Suc (length (poiData s))) n" by (simp add: percent_full)
  with a show "\<exists>p. loadingProgress (decodeStep n s f) = Finite p \<and> 100 \<le> p"
    by (simp add: decodeStep_progress floorPercent_def)
next
  assume a: "0 < n \<and> Suc (length (poiData s)) = 2 * n"
  then have "percent (Suc (length (poiData s))) n = 200" by (simp only: percent_twice)
  with a show "loadingProgress (decodeStep n s f) = Finite 200"
    by (simp add: decodeStep_progress floorPercent_def)
next
  assume "n = 0"
  then show "loadingProgress (decodeStep n s f) = loadingProgress s"
    by (simp add: decodeStep_progress)
next
  assume "loadingProgress s \<noteq> NotFinite"
  then show "loadingProgress (decodeStep n s f) \<noteq> NotFinite"
    by (simp add: decodeStep_progress floorPercent_def)
next
  show "screenProgress loadedCount 0 = 0" by (simp add: screenProgress_def)
next
  assume "0 < totalCount"
  then show "screenProgress loadedCount totalCount =
      \<lfloor>roundDouble (roundDouble (of_nat loadedCount / of_nat totalCount) * 100) + 1 / 2\<rfloor>"
    by (simp add: screenProgress_def)
next
  assume "0 < totalCount"
  then show "percent loadedCount totalCount \<le> screenProgress loadedCount totalCount"
    by (rule screenProgress_near_percent)
next
  assume "0 < totalCount"
  then show "screenProgress loadedCount totalCount \<le> percent loadedCount totalCount + 1"
    by (rule screenProgress_near_percent)
next
  show "floorPercent len 0 = NotFinite" by (simp add: floorPercent_def)
qed

theorem progress_step_witness:
  "loadingProgress (decodeStep 2 (decodeStep 2 (mapLoaded initialState) cafeFeature) barFeature)
     = Finite 100
   \<and> loadingProgress (decodeStep 1 (decodeStep 1 (mapLoaded initialState) cafeFeature) barFeature)
     = Finite 200
   \<and> loadingProgress (decodeStep 0 (mapLoaded initialState) cafeFeature) = Finite 0
   \<and> loadingProgress (decodeStep 0 (mapLoaded initialState) cafeFeature) \<noteq> NotFinite
   \<and> screenProgress 1 2 = 50"
proof -
  let ?s1 = "decodeStep 2 (mapLoaded initialState) cafeFeature"
  let ?t1 = "decodeStep 1 (mapLoaded initialState) cafeFeature"
  have l: "Suc (length (poiData ?s1)) = 2" "Suc (length (poiData ?t1)) = 2"
    by (simp_all add: decodeStep_fields mapLoaded_def initialState_def)
  have i: "loadingProgress (mapLoaded initialState) = Finite 0"
    by (simp add: mapLoaded_def initialState_def)
  from progress_step [of 2 ?s1 barFeature, THEN conjunct1]
  have 1: "loadingProgress (decodeStep 2 ?s1 barFeature) = Finite 100"
    by (simp add: l roundDouble_1 roundDouble_100)
  have 2: "loadingProgress (decodeStep 1 ?t1 barFeature) = Finite 200"
    by (rule progress_step [of 1 ?t1 barFeature, THEN conjunct2, THEN conjunct2, THEN conjunct2,
          THEN conjunct2, THEN conjunct1, THEN mp]) (use l in simp)
  from progress_step [of 0 "mapLoaded initialState" cafeFeature] i
  have 3: "loadingProgress (decodeStep 0 (mapLoaded initialState) cafeFeature) = Finite 0"
    "loadingProgress (decodeStep 0 (mapLoaded initialState) cafeFeature) \<noteq> NotFinite"
    by simp_all
  from progress_step [of 2 ?s1 barFeature 1 2, THEN conjunct2, THEN conjunct2, THEN conjunct2,
      THEN conjunct2, THEN conjunct2, THEN conjunct2, THEN conjunct2, THEN conjunct2,
      THEN conjunct1, THEN mp, THEN conjunct1]
  have 4: "screenProgress 1 2 = 50"
    using floor_unique [of 50 "(101 :: rat) / 2"] by (simp add: roundDouble_half roundDouble_50)
  from 1 2 3 4 show ?thesis by simp
qed

section \<open>What no operation changes\<close>

text \<open>
  No operation of the component gives \<open>poi-pseudo\<close> a filter, and a chip of the category
  table keeps the selection inside the table. A layer without a filter shows every feature,
  a layer with the sentinel none.
\<close>

lemma applyFilter_pseudo:
  "layerFilter (applyFilter toLowerCase s nowMs rendered) PoiPseudo = layerFilter s PoiPseudo"
  by (simp add: applyFilter_def updateCenterPOIs_frame applyCombinedFilter_layers
      clearAllFilters_def setFilters_simps)

lemma pseudo_layer_never_filtered:
  "layerFilter (keywordInput toLowerCase s typed nowMs rendered) PoiPseudo = layerFilter s PoiPseudo"
  "layerFilter (selectPeriod toLowerCase s periodValue nowMs rendered) PoiPseudo = layerFilter s PoiPseudo"
  "layerFilter (toggleCategory toLowerCase s categoryId nowMs rendered) PoiPseudo = layerFilter s PoiPseudo"
  "layerFilter (clearFilter s) PoiPseudo = layerFilter s PoiPseudo"
  "layerFilter (updateCenterPOIs s rendered) PoiPseudo = layerFilter s PoiPseudo"
  "layerFilter (loadPOIData s r) PoiPseudo = layerFilter s PoiPseudo"
proof -
  show "layerFilter (keywordInput toLowerCase s typed nowMs rendered) PoiPseudo = layerFilter s PoiPseudo"
    by (simp add: keywordInput_def applyFilter_pseudo)
  show "layerFilter (selectPeriod toLowerCase s periodValue nowMs rendered) PoiPseudo = layerFilter s PoiPseudo"
    by (simp add: selectPeriod_def applyFilter_pseudo)
  show "layerFilter (toggleCategory toLowerCase s categoryId nowMs rendered) PoiPseudo = layerFilter s PoiPseudo"
    by (simp add: toggleCategory_def applyFilter_pseudo)
  show "layerFilter (clearFilter s) PoiPseudo = layerFilter s PoiPseudo"
    by (simp add: clearFilter_def setFilters_def Let_def)
  show "layerFilter (updateCenterPOIs s rendered) PoiPseudo = layerFilter s PoiPseudo"
    by (simp add: updateCenterPOIs_frame)
  show "layerFilter (loadPOIData s r) PoiPseudo = layerFilter s PoiPseudo"
    by (auto simp: loadPOIData_def loadFailed_def decodeLoop_fields Let_def
        split: response.splits option.splits stream.splits)
qed

lemma applyFilter_selectedCategories:
  "selectedCategories (applyFilter toLowerCase s nowMs rendered) = selectedCategories s"
  by (simp add: applyFilter_def updateCenterPOIs_def applyCombinedFilter_def Let_def
      clearAllFilters_def setFilters_def)

lemma toggleCategory_known:
  assumes "set (selectedCategories s) \<subseteq> fst ` set categoryOptions"
    and "categoryId \<in> fst ` set categoryOptions"
  shows "set (selectedCategories (toggleCategory toLowerCase s categoryId nowMs rendered))
         \<subseteq> fst ` set categoryOptions"
  using assms by (auto simp: toggleCategory_def applyFilter_selectedCategories)

lemma no_filter_shows_all: "layerFilter s l = None \<Longrightarrow> layerShows s l f"
  by (simp add: layerShows_def)

lemma sentinel_shows_none: "layerFilter s l = Some noResultFilter \<Longrightarrow> \<not> layerShows s l f"
  by (simp add: layerShows_def evalFilter_noResult)

end
